theory Spec2Isabelle
  imports Main "HOL-Library.Sublist"
begin

section \<open>Wishbone master (cocotbext/wishbone/driver.py)\<close>

subsection \<open>Data model\<close>

text \<open>
  Python integers are \<open>int\<close>; an attribute that may hold \<open>None\<close> is an option.
  The three wrapper classes \<open>WBOp\<close>, \<open>WBAux\<close> and \<open>WBRes\<close> share attribute names,
  so each record prefixes its fields.
\<close>

record wbop =
  op_adr :: int
  op_dat :: "int option"
  op_sel :: int
  op_idle :: "int option"

record wbaux =
  aux_sel :: int
  aux_adr :: int
  aux_datwr :: int
  aux_waitIdle :: "int option"
  aux_waitStall :: int
  aux_ts :: int

record wbres =
  res_ack :: int
  res_sel :: "int option"
  res_adr :: "int option"
  res_datrd :: int
  res_datwr :: "int option"
  res_waitStall :: "int option"
  res_waitAck :: int
  res_waitIdle :: "int option"

text \<open>The failures the driver raises; the interpreter errors the code can run into follow.\<close>

datatype failure =
    AckAndErr
  | ReplyAndRty bool
  | StallTimeout int
  | ReplyTimeout int
  | NotWBOpList

text \<open>The protocol errors of the Avalon-ST packet monitor.\<close>

datatype protocol_failure =
    DuplicateStart
  | OutsidePacket
  | StillBad int
  | ChannelTooBig int int
  | ChannelChanged
  | InPacketTimeout int

datatype error =
    TestFailure failure
  | AvalonProtocolError protocol_failure
  | UnboundLocalError
  | TypeError

text \<open>Messages written with \<open>log.error\<close> (debug and info messages have no effect and are left out).\<close>

datatype log_msg = AlreadyBusy | NoOperations | OutsideCycle

text \<open>The values sampled on the slave's lines, and the master's output lines.\<close>

record bus_in =
  b_ack :: int
  b_err :: int
  b_rty :: int
  b_stall :: int
  b_datrd :: int

datatype out_sig = Cyc | Stb | We | Adr | Datwr | Sel

text \<open>
  The driver object together with its bus: the instance attributes of \<open>WishboneMaster\<close>,
  which optional signals the bus has (\<open>hasattr(self.bus, ...)\<close>), the values currently
  sampled on the input lines, every assignment \<open>self.bus.x <= v\<close> made so far (oldest
  first), the error log, and which of the two forked tasks are still alive.
\<close>

record wb =
  timeout :: "int option"
  busy :: bool
  busy_event :: bool
  acked_ops :: int
  res_buf :: "wbres list"
  aux_buf :: "wbaux list"
  op_cnt :: int
  clk_cycle_count :: int
  has_stall :: bool
  has_err :: bool
  has_rty :: bool
  ins :: bus_in
  writes :: "(out_sig \<times> int) list"
  log :: "log_msg list"
  read_task :: bool
  count_task :: bool

definition drive_sig :: "out_sig \<Rightarrow> int \<Rightarrow> wb \<Rightarrow> wb" where
  "drive_sig s v m = m\<lparr>writes := writes m @ [(s, v)]\<rparr>"

subsection \<open>Reply arbitration\<close>

text \<open>
  \<open>_get_reply\<close>: the code is 0 for no reply, 1 for ACK, 2 for ERR, 3 for RTY. The two
  optional lines are looked at one after the other, each on the pair \<open>(ack, code)\<close> left
  by the lines before it. The flag carried by \<open>ReplyAndRty\<close> is the message's choice
  between "ACK" and "ERR" (\<open>code == 1\<close>).
\<close>

definition reply_err :: "wb \<Rightarrow> bool \<times> int \<Rightarrow> error + (bool \<times> int)" where
  "reply_err m ac =
    (if has_err m \<and> b_err (ins m) = 1
     then (if fst ac then Inl (TestFailure AckAndErr) else Inr (True, 2))
     else Inr ac)"

definition reply_rty :: "wb \<Rightarrow> bool \<times> int \<Rightarrow> error + (bool \<times> int)" where
  "reply_rty m ac =
    (if has_rty m \<and> b_rty (ins m) = 1
     then (if fst ac then Inl (TestFailure (ReplyAndRty (snd ac = 1))) else Inr (True, 3))
     else Inr ac)"

definition get_reply :: "wb \<Rightarrow> error + (bool \<times> int)" where
  "get_reply m =
    (let ack = (b_ack (ins m) = 1);
         code = (if ack then 1 else 0)
     in case reply_err m (ack, code) of
          Inl e \<Rightarrow> Inl e
        | Inr ac \<Rightarrow> reply_rty m ac)"

text \<open>Whether a line is asserted at the sampled edge: an absent optional line never is.\<close>

definition ack_line :: "wb \<Rightarrow> bool" where
  "ack_line m = (b_ack (ins m) = 1)"

definition err_line :: "wb \<Rightarrow> bool" where
  "err_line m = (has_err m \<and> b_err (ins m) = 1)"

definition rty_line :: "wb \<Rightarrow> bool" where
  "rty_line m = (has_rty m \<and> b_rty (ins m) = 1)"

subsection \<open>Clock edges and the two forked tasks\<close>

text \<open>
  The simulation is a finite list of samples of the slave's lines, one per clock edge still
  to come. Waiting for \<open>self.bus.clock_event\<close> takes the next sample; when none is left the
  simulation has ended with the coroutine still waiting, which is the outcome \<open>Pending\<close>.
  Every coroutine returns its outcome, the driver as it then is, and the samples not yet
  consumed.
\<close>

datatype 'a outcome = Done 'a | Fail error | Pending

type_synonym 'a run = "'a outcome \<times> wb \<times> bus_in list"

text \<open>
  One pass of the body of \<open>_read\<close>'s loop, up to its \<open>yield\<close>: a valid reply is appended
  to the result buffer with the cycle counter as it stands.
\<close>

definition read_body :: "wb \<Rightarrow> error + wb" where
  "read_body m =
    (case get_reply m of
       Inl e \<Rightarrow> Inl e
     | Inr (ack, reply) \<Rightarrow>
         Inr (if ack
              then m\<lparr>res_buf := res_buf m @
                       [\<lparr>res_ack = reply, res_sel = None, res_adr = None,
                         res_datrd = b_datrd (ins m), res_datwr = None,
                         res_waitStall = None, res_waitAck = clk_cycle_count m,
                         res_waitIdle = None\<rparr>],
                     acked_ops := acked_ops m + 1\<rparr>
              else m))"

text \<open>\<open>_read\<close> woken by a clock edge: the loop test, then the body or the task's end.\<close>

definition read_resume :: "wb \<Rightarrow> error + wb" where
  "read_resume m =
    (if read_task m
     then (if busy m then read_body m else Inr (m\<lparr>read_task := False\<rparr>))
     else Inr m)"

text \<open>\<open>_clk_cycle_counter\<close> woken by a clock edge: the increment, then the loop test.\<close>

definition count_resume :: "wb \<Rightarrow> wb" where
  "count_resume m =
    (if count_task m
     then (let m' = m\<lparr>clk_cycle_count := clk_cycle_count m + 1\<rparr>
           in if busy m' then m' else m'\<lparr>count_task := False\<rparr>)
     else m)"

text \<open>
  Modelled from the spec: the simulator's scheduler is not part of the sources. The spec
  asks that the reply collector sees an edge's lines before the driver's decisions for
  that edge, so at each edge the tasks waiting for it run in the order in which they were
  forked (\<open>_read\<close>, then \<open>_clk_cycle_counter\<close>) and the driving coroutine after them. A
  failure raised inside a forked task ends the test, as one raised by the driver does.
\<close>

definition edge :: "bus_in \<Rightarrow> wb \<Rightarrow> error + wb" where
  "edge j m =
    (case read_resume (m\<lparr>ins := j\<rparr>) of
       Inl e \<Rightarrow> Inl e
     | Inr m' \<Rightarrow> Inr (count_resume m'))"

fun clock_event :: "wb \<Rightarrow> bus_in list \<Rightarrow> unit run" where
  "clock_event m [] = (Pending, m, [])"
| "clock_event m (j # js) =
    (case edge j m of
       Inl e \<Rightarrow> (Fail e, m\<lparr>ins := j\<rparr>, js)
     | Inr m' \<Rightarrow> (Done (), m', js))"

text \<open>Sequencing of two coroutines (\<open>yield\<close> of a coroutine, then the rest of the body).\<close>

definition bnd :: "'a run \<Rightarrow> ('a \<Rightarrow> wb \<Rightarrow> bus_in list \<Rightarrow> 'b run) \<Rightarrow> 'b run" where
  "bnd r f =
    (case r of
       (Done x, m, tr) \<Rightarrow> f x m tr
     | (Fail e, m, tr) \<Rightarrow> (Fail e, m, tr)
     | (Pending, m, tr) \<Rightarrow> (Pending, m, tr))"

subsection \<open>Opening and closing a cycle\<close>

text \<open>
  Waiting for \<open>busy_event\<close> while nothing sets it: the driver stays blocked and the forked
  tasks keep running at every edge.
\<close>

fun wait_forever :: "wb \<Rightarrow> bus_in list \<Rightarrow> unit run" where
  "wait_forever m [] = (Pending, m, [])"
| "wait_forever m (j # js) =
    (case edge j m of
       Inl e \<Rightarrow> (Fail e, m\<lparr>ins := j\<rparr>, js)
     | Inr m' \<Rightarrow> wait_forever m' js)"

text \<open>
  The body of \<open>_open_cycle\<close> after its guard. \<open>cocotb.fork\<close> runs the new task up to
  its first \<open>yield\<close>: \<open>_read\<close> samples once (into the buffers that are reset below) and
  \<open>_clk_cycle_counter\<close> zeroes the counter. No task of an earlier cycle is alive here:
  \<open>send_cycle\<close> waits for a clock edge first, at which the tasks of a closed cycle end,
  and with a cycle still open the guard blocks.
\<close>

definition open_body :: "wb \<Rightarrow> bus_in list \<Rightarrow> unit run" where
  "open_body m tr =
    (let m1 = m\<lparr>busy_event := False, busy := True\<rparr>
     in case read_body (m1\<lparr>read_task := True\<rparr>) of
          Inl e \<Rightarrow> (Fail e, m1\<lparr>read_task := True\<rparr>, tr)
        | Inr m2 \<Rightarrow>
            (let m3 = m2\<lparr>count_task := True, clk_cycle_count := 0\<rparr>;
                 m4 = drive_sig Cyc 1 m3
             in (Done (), m4\<lparr>acked_ops := 0, res_buf := [], aux_buf := []\<rparr>, tr)))"

definition open_cycle :: "wb \<Rightarrow> bus_in list \<Rightarrow> unit run" where
  "open_cycle m tr =
    (if busy m
     then (let m' = m\<lparr>log := log m @ [AlreadyBusy]\<rparr>
           in if busy_event m' then open_body m' tr
              else wait_forever m' tr)
     else open_body m tr)"

definition timed_out :: "wb \<Rightarrow> int \<Rightarrow> bool" where
  "timed_out m count = (case timeout m of None \<Rightarrow> False | Some t \<Rightarrow> count > t)"

fun close_loop :: "int \<Rightarrow> wb \<Rightarrow> bus_in list \<Rightarrow> unit run" where
  "close_loop count m [] =
    (if acked_ops m < op_cnt m
     then (if timed_out m (count + 1)
           then (Fail (TestFailure (ReplyTimeout (the (timeout m)))), m, [])
           else (Pending, m, []))
     else (Done (), m, []))"
| "close_loop count m (j # js) =
    (if acked_ops m < op_cnt m
     then (if timed_out m (count + 1)
           then (Fail (TestFailure (ReplyTimeout (the (timeout m)))), m, j # js)
           else (case edge j m of
                   Inl e \<Rightarrow> (Fail e, m\<lparr>ins := j\<rparr>, js)
                 | Inr m' \<Rightarrow> close_loop (count + 1) m' js))
     else (Done (), m, j # js))"

definition close_cycle :: "wb \<Rightarrow> bus_in list \<Rightarrow> unit run" where
  "close_cycle m tr =
    bnd (close_loop 0 m tr)
      (\<lambda>_ m1 tr1. clock_event (drive_sig Cyc 0 (m1\<lparr>busy := False, busy_event := True\<rparr>)) tr1)"

subsection \<open>Flow control\<close>

fun stall_loop :: "int \<Rightarrow> wb \<Rightarrow> bus_in list \<Rightarrow> int run" where
  "stall_loop count m [] =
    (if b_stall (ins m) = 1 then (Pending, m, []) else (Done count, m, []))"
| "stall_loop count m (j # js) =
    (if b_stall (ins m) = 1
     then (case edge j m of
             Inl e \<Rightarrow> (Fail e, m\<lparr>ins := j\<rparr>, js)
           | Inr m' \<Rightarrow>
               (if timed_out m' (count + 1)
                then (Fail (TestFailure (StallTimeout (the (timeout m')))), m', js)
                else stall_loop (count + 1) m' js))
     else (Done count, m, j # js))"

definition wait_stall :: "wb \<Rightarrow> bus_in list \<Rightarrow> int run" where
  "wait_stall m tr = (if has_stall m then stall_loop 0 m tr else (Done 0, m, tr))"

fun ack_loop :: "int \<Rightarrow> wb \<Rightarrow> bus_in list \<Rightarrow> int run" where
  "ack_loop count m [] =
    (case get_reply m of
       Inl e \<Rightarrow> (Fail e, m, [])
     | Inr (ack, code) \<Rightarrow> (if ack then (Done count, m, []) else (Pending, m, [])))"
| "ack_loop count m (j # js) =
    (case get_reply m of
       Inl e \<Rightarrow> (Fail e, m, j # js)
     | Inr (ack, code) \<Rightarrow>
         (if ack then (Done count, m, j # js)
          else (case edge j m of
                  Inl e \<Rightarrow> (Fail e, m\<lparr>ins := j\<rparr>, js)
                | Inr m' \<Rightarrow> ack_loop (count + 1) m' js)))"

definition wait_ack :: "wb \<Rightarrow> bus_in list \<Rightarrow> int run" where
  "wait_ack m tr = (if \<not> has_stall m then ack_loop 0 m tr else (Done 0, m, tr))"

subsection \<open>Driving one operation\<close>

fun idle_loop :: "int \<Rightarrow> wb \<Rightarrow> bus_in list \<Rightarrow> unit run" where
  "idle_loop idlecnt m [] =
    (if idlecnt > 0 then (Pending, m, []) else (Done (), m, []))"
| "idle_loop idlecnt m (j # js) =
    (if idlecnt > 0
     then (case edge j m of
             Inl e \<Rightarrow> (Fail e, m\<lparr>ins := j\<rparr>, js)
           | Inr m' \<Rightarrow> idle_loop (idlecnt - 1) m' js)
     else (Done (), m, j # js))"

definition insert_idle :: "int option \<Rightarrow> wb \<Rightarrow> bus_in list \<Rightarrow> unit run" where
  "insert_idle idle m tr =
    (case idle of None \<Rightarrow> (Done (), m, tr) | Some n \<Rightarrow> idle_loop n m tr)"

definition drive_outputs :: "int \<Rightarrow> int \<Rightarrow> int \<Rightarrow> int \<Rightarrow> wb \<Rightarrow> wb" where
  "drive_outputs we adr datwr sel m =
    drive_sig We we (drive_sig Datwr datwr (drive_sig Sel sel (drive_sig Adr adr
      (drive_sig Stb 1 m))))"

definition drive :: "int \<Rightarrow> int \<Rightarrow> int \<Rightarrow> int \<Rightarrow> int option \<Rightarrow> wb \<Rightarrow> bus_in list \<Rightarrow> unit run" where
  "drive we adr datwr sel idle m tr =
    (if busy m
     then
       bnd (insert_idle idle m tr) (\<lambda>_ m1 tr1.
       bnd (clock_event (drive_outputs we adr datwr sel m1) tr1) (\<lambda>_ m2 tr2.
       bnd (wait_stall m2 tr2) (\<lambda>stalled m3 tr3.
       bnd (wait_ack
              (m3\<lparr>aux_buf := aux_buf m3 @
                     [\<lparr>aux_sel = sel, aux_adr = adr, aux_datwr = datwr,
                       aux_waitIdle = idle, aux_waitStall = stalled,
                       aux_ts = clk_cycle_count m3\<rparr>]\<rparr>) tr3) (\<lambda>_ m4 tr4.
       (Done (), drive_sig We 0 (drive_sig Stb 0 m4), tr4)))))
     else (Done (), m\<lparr>log := log m @ [OutsideCycle]\<rparr>, tr))"

subsection \<open>The whole cycle\<close>

text \<open>
  The argument of \<open>send_cycle\<close> is any Python object: what \<open>is_sequence\<close> asks of it
  are three attributes, and a sized iterable has its items, each a \<open>WBOp\<close> or not.
\<close>

datatype item = Op wbop | Other

record pyarg =
  a_strip :: bool
  a_getitem :: bool
  a_iter :: bool
  a_items :: "item list"

definition is_sequence :: "pyarg \<Rightarrow> bool" where
  "is_sequence arg = ((\<not> a_strip arg \<and> a_getitem arg) \<or> a_iter arg)"

text \<open>
  The \<open>for\<close> loop of \<open>send_cycle\<close>. The debug line after \<open>_drive\<close> formats \<open>op.idle\<close>
  with \<open>%3u\<close>, which raises \<open>TypeError\<close> when it is \<open>None\<close>.
\<close>

fun drive_ops :: "item list \<Rightarrow> wb \<Rightarrow> bus_in list \<Rightarrow> unit run" where
  "drive_ops [] m tr = (Done (), m, tr)"
| "drive_ops (Other # xs) m tr = (Fail (TestFailure NotWBOpList), m, tr)"
| "drive_ops (Op op # xs) m tr =
    (let we = (if op_dat op \<noteq> None then 1 else 0);
         dat = (case op_dat op of Some d \<Rightarrow> d | None \<Rightarrow> 0)
     in bnd (drive we (op_adr op) dat (op_sel op) (op_idle op) m tr) (\<lambda>_ m1 tr1.
          if op_idle op = None then (Fail TypeError, m1, tr1)
          else drive_ops xs m1 tr1))"

definition mix :: "wbres \<Rightarrow> wbaux \<Rightarrow> wbres" where
  "mix res aux =
    res\<lparr>res_datwr := Some (aux_datwr aux),
        res_sel := Some (aux_sel aux),
        res_adr := Some (aux_adr aux),
        res_waitIdle := aux_waitIdle aux,
        res_waitStall := Some (aux_waitStall aux),
        res_waitAck := res_waitAck res - aux_ts aux\<rparr>"

definition pick_and_mix :: "wbres list \<Rightarrow> wbaux list \<Rightarrow> wbres list" where
  "pick_and_mix rs axs = map (\<lambda>(res, aux). mix res aux) (zip rs axs)"

text \<open>Opening the cycle, the operations in order, closing the cycle.\<close>

definition run_cycle :: "item list \<Rightarrow> wb \<Rightarrow> bus_in list \<Rightarrow> unit run" where
  "run_cycle xs m tr =
    bnd (open_cycle m tr) (\<lambda>_ m1 tr1.
    bnd (drive_ops xs m1 tr1) (\<lambda>_ m2 tr2.
    close_cycle m2 tr2))"

text \<open>
  \<open>send_cycle\<close>. With an empty sequence \<open>result\<close> is never bound, so the final
  \<open>raise ReturnValue(result)\<close> is an \<open>UnboundLocalError\<close>. The results are the objects of
  the result buffer, updated in place.
\<close>

definition send_body :: "pyarg \<Rightarrow> wb \<Rightarrow> bus_in list \<Rightarrow> wbres list run" where
  "send_body arg m tr =
    (if is_sequence arg
     then (let m1 = m\<lparr>op_cnt := int (length (a_items arg))\<rparr>
           in if op_cnt m1 < 1
              then (Fail UnboundLocalError, m1\<lparr>log := log m1 @ [NoOperations]\<rparr>, tr)
              else bnd (run_cycle (a_items arg) m1 tr) (\<lambda>_ m2 tr2.
                     (let result = pick_and_mix (res_buf m2) (aux_buf m2)
                      in (Done result,
                          m2\<lparr>res_buf := result @ drop (length result) (res_buf m2)\<rparr>,
                          tr2))))
     else (Fail (TestFailure NotWBOpList), m, tr))"

definition send_cycle :: "wb \<Rightarrow> pyarg \<Rightarrow> bus_in list \<Rightarrow> wbres list run" where
  "send_cycle m arg tr = bnd (clock_event m tr) (\<lambda>_ m1 tr1. send_body arg m1 tr1)"

text \<open>
  A freshly constructed \<open>WishboneMaster\<close>: the constructor drives the defaults (\<open>sel\<close> is
  all ones, \<open>ones\<close> for the width of the bus at hand).
\<close>

definition WishboneMaster :: "int option \<Rightarrow> bool \<Rightarrow> bool \<Rightarrow> bool \<Rightarrow> int \<Rightarrow> bus_in \<Rightarrow> wb" where
  "WishboneMaster t stall err rty ones i =
    \<lparr>timeout = t, busy = False, busy_event = False, acked_ops = 0, res_buf = [],
     aux_buf = [], op_cnt = 0, clk_cycle_count = 0, has_stall = stall, has_err = err,
     has_rty = rty, ins = i,
     writes = [(Cyc, 0), (Stb, 0), (We, 0), (Adr, 0), (Datwr, 0), (Sel, ones)],
     log = [], read_task = False, count_task = False\<rparr>"

section \<open>Monitors (cocotb/monitor.py)\<close>

text \<open>
  Modelled from the spec: the event class is not part of the sources. An event is a
  readiness flag with the data it was last set with; \<open>set\<close> raises the flag, stores the
  data and notifies the waiters (the notifications are kept, oldest first), \<open>clear\<close>
  lowers the flag.
\<close>

record 't event =
  ev_fired :: bool
  ev_data :: "'t option"
  ev_sets :: "'t list"

definition ev_set :: "'t \<Rightarrow> 't event \<Rightarrow> 't event" where
  "ev_set d e = e\<lparr>ev_fired := True, ev_data := Some d, ev_sets := ev_sets e @ [d]\<rparr>"

definition ev_clear :: "'t event \<Rightarrow> 't event" where
  "ev_clear e = e\<lparr>ev_fired := False\<rparr>"

text \<open>
  A \<open>Monitor\<close>. Callbacks are opaque callables, named by numbers; every call made is
  recorded with its argument, in order. A callback is taken to return normally and to leave
  the monitor alone.
\<close>

record 't monitor =
  received_transactions :: int
  callbacks :: "nat list"
  calls :: "(nat \<times> 't) list"
  recvQ :: "'t list"
  event :: "'t event option"
  wait_event :: "'t event option"

definition recv :: "'t \<Rightarrow> 't monitor \<Rightarrow> 't monitor" where
  "recv transaction m =
    (let m1 = m\<lparr>received_transactions := received_transactions m + 1\<rparr>;
         m2 = m1\<lparr>calls := calls m1 @ map (\<lambda>callback. (callback, transaction)) (callbacks m1)\<rparr>;
         m3 = (if callbacks m2 = [] then m2\<lparr>recvQ := recvQ m2 @ [transaction]\<rparr> else m2);
         m4 = (case event m3 of
                 None \<Rightarrow> m3
               | Some e \<Rightarrow> m3\<lparr>event := Some (ev_set transaction e)\<rparr>)
     in case wait_event m4 of
          None \<Rightarrow> m4
        | Some e \<Rightarrow> m4\<lparr>wait_event := Some (ev_clear (ev_set transaction e))\<rparr>)"

section \<open>Avalon-ST packet monitor (cocotbext/avalon/monitor.py)\<close>

subsection \<open>Data model\<close>

text \<open>
  What the monitor reads at one clock edge. One-bit lines are read for their truth value,
  \<open>data\<close> for its binary string, the others for their integer.
\<close>

record av_in =
  v_reset_n :: int
  v_reset :: int
  v_valid :: bool
  v_ready :: bool
  v_startofpacket :: bool
  v_endofpacket :: bool
  v_data :: string
  v_empty :: int
  v_channel :: int

text \<open>The configuration dictionary, the reporting flag, and which optional handles exist.\<close>

record av_cfg =
  dataBitsPerSymbol :: int
  firstSymbolInHighOrderBits :: bool
  maxChannel :: int
  invalidTimeout :: int
  useEmpty :: bool
  report_channel :: bool
  has_reset_n :: bool
  has_reset :: bool
  has_ready :: bool
  has_channel :: bool

text \<open>A transaction handed to \<open>_recv\<close>: the packet, or the dictionary with its channel.\<close>

datatype txn = Packet string | PacketOnChannel string "int option"

text \<open>
  The local variables of \<open>_monitor_recv\<close> (\<open>empty\<close> is unbound until first assigned),
  the attribute \<open>self.channel\<close>, and the monitor itself.
\<close>

record av_state =
  pkt :: string
  in_pkt :: bool
  invalid_cyclecount :: int
  channel :: "int option"
  empty_bits :: "int option"
  self_channel :: "int option"
  mon :: "txn monitor"

definition av_start :: "txn monitor \<Rightarrow> av_state" where
  "av_start m =
    \<lparr>pkt = [], in_pkt = False, invalid_cyclecount = 0, channel = None,
     empty_bits = None, self_channel = None, mon = m\<rparr>"

subsection \<open>Python slices and the value model\<close>

text \<open>\<open>value[:k]\<close> and \<open>value[k:]\<close>; a negative bound counts from the end.\<close>

definition slice_upto :: "'a list \<Rightarrow> int \<Rightarrow> 'a list" where
  "slice_upto xs k =
    (if k \<ge> 0 then take (nat k) xs else take (nat (int (length xs) + k)) xs)"

definition slice_from :: "'a list \<Rightarrow> int \<Rightarrow> 'a list" where
  "slice_from xs k =
    (if k \<ge> 0 then drop (nat k) xs else drop (nat (int (length xs) + k)) xs)"

text \<open>
  Modelled from the spec: the value class is not part of the sources. A value is fully
  resolved when its binary string holds no unresolvable bit, that is only 0 and 1.
\<close>

definition is_resolvable :: "string \<Rightarrow> bool" where
  "is_resolvable v = list_all (\<lambda>c. c = CHR ''0'' \<or> c = CHR ''1'') v"

text \<open>
  Modelled from the spec: the byte view \<open>buff\<close> of a value is a parameter of the monitor
  below (its first argument is \<open>big_endian\<close>). \<open>get_buff\<close> is the reading used for
  concrete runs: the string is padded on the left to whole bytes, and the bytes are taken
  in order, or in reverse order when not big-endian.
\<close>

definition byte_of :: "string \<Rightarrow> char" where
  "byte_of bits = char_of (foldl (\<lambda>n c. 2 * n + (if c = CHR ''1'' then 1 else 0)) (0::nat) bits)"

fun bytes_of :: "string \<Rightarrow> string" where
  "bytes_of (a # b # c # d # e # f # g # h # rest) =
     byte_of [a, b, c, d, e, f, g, h] # bytes_of rest"
| "bytes_of _ = []"

definition get_buff :: "bool \<Rightarrow> string \<Rightarrow> string" where
  "get_buff big_endian v =
    (let bits = replicate ((8 - length v mod 8) mod 8) (CHR ''0'') @ v
     in if big_endian then bytes_of bits else rev (bytes_of bits))"

subsection \<open>One clock edge\<close>

text \<open>\<open>BusMonitor.in_reset\<close> and the local function \<open>valid\<close>.\<close>

definition in_reset :: "av_cfg \<Rightarrow> av_in \<Rightarrow> bool" where
  "in_reset cfg s =
    (if has_reset_n cfg then \<not> (v_reset_n s \<noteq> 0)
     else if has_reset cfg then v_reset s \<noteq> 0
     else False)"

definition av_valid :: "av_cfg \<Rightarrow> av_in \<Rightarrow> bool" where
  "av_valid cfg s = (if has_ready cfg then v_valid s \<and> v_ready s else v_valid s)"

text \<open>The start-of-packet test; the duplicate is recognised by the bytes gathered so far.\<close>

definition start_packet :: "av_in \<Rightarrow> av_state \<Rightarrow> error + av_state" where
  "start_packet s st =
    (if v_startofpacket s
     then (if pkt st \<noteq> [] then Inl (AvalonProtocolError DuplicateStart)
           else Inr (st\<lparr>pkt := [], in_pkt := True\<rparr>))
     else Inr st)"

text \<open>The value of the last word after the empty symbols are cut off, and \<open>empty\<close>.\<close>

definition mask_empty :: "av_cfg \<Rightarrow> av_in \<Rightarrow> av_state \<Rightarrow> string \<times> av_state" where
  "mask_empty cfg s st =
    (let value = v_data s
     in if useEmpty cfg \<and> v_empty s \<noteq> 0
        then (let e = v_empty s * dataBitsPerSymbol cfg
              in (if firstSymbolInHighOrderBits cfg then slice_upto value (- e)
                  else slice_from value e,
                  st\<lparr>empty_bits := Some e\<rparr>))
        else (value, st))"

text \<open>
  The word of this cycle. The error message formats \<open>empty\<close>, which is an
  \<open>UnboundLocalError\<close> when no word has been masked yet.
\<close>

definition data_word :: "av_cfg \<Rightarrow> av_in \<Rightarrow> av_state \<Rightarrow> error + (string \<times> av_state)" where
  "data_word cfg s st =
    (if \<not> v_endofpacket s then Inr (v_data s, st)
     else (case mask_empty cfg s st of
             (value, st') \<Rightarrow>
               (if \<not> is_resolvable value
                then (case empty_bits st' of
                        None \<Rightarrow> Inl UnboundLocalError
                      | Some e \<Rightarrow> Inl (AvalonProtocolError (StillBad e)))
                else Inr (value, st'))))"

definition check_channel :: "av_cfg \<Rightarrow> av_in \<Rightarrow> av_state \<Rightarrow> error + av_state" where
  "check_channel cfg s st =
    (if has_channel cfg
     then (case channel st of
             None \<Rightarrow>
               (if v_channel s > maxChannel cfg
                then Inl (AvalonProtocolError (ChannelTooBig (v_channel s) (maxChannel cfg)))
                else Inr (st\<lparr>channel := Some (v_channel s)\<rparr>))
           | Some c \<Rightarrow>
               (if v_channel s \<noteq> c then Inl (AvalonProtocolError ChannelChanged)
                else Inr st))
     else Inr st)"

definition end_packet :: "av_cfg \<Rightarrow> av_in \<Rightarrow> av_state \<Rightarrow> av_state" where
  "end_packet cfg s st =
    (if v_endofpacket s
     then st\<lparr>self_channel := channel st,
             mon := recv (if report_channel cfg then PacketOnChannel (pkt st) (channel st)
                          else Packet (pkt st)) (mon st),
             pkt := [], in_pkt := False, channel := None\<rparr>
     else st)"

text \<open>A valid edge once the start-of-packet test is passed.\<close>

definition receive_word :: "(bool \<Rightarrow> string \<Rightarrow> string) \<Rightarrow> av_cfg \<Rightarrow> av_in \<Rightarrow> av_state \<Rightarrow> error + av_state" where
  "receive_word buff cfg s st1 =
    (if \<not> in_pkt st1 then Inl (AvalonProtocolError OutsidePacket)
     else (case data_word cfg s st1 of
             Inl e \<Rightarrow> Inl e
           | Inr (vec, st2) \<Rightarrow>
               (case check_channel cfg s
                       (st2\<lparr>pkt := pkt st2 @ buff (firstSymbolInHighOrderBits cfg) vec\<rparr>) of
                  Inl e \<Rightarrow> Inl e
                | Inr st3 \<Rightarrow> Inr (end_packet cfg s st3))))"

definition valid_edge :: "(bool \<Rightarrow> string \<Rightarrow> string) \<Rightarrow> av_cfg \<Rightarrow> av_in \<Rightarrow> av_state \<Rightarrow> error + av_state" where
  "valid_edge buff cfg s st =
    (case start_packet s (st\<lparr>invalid_cyclecount := 0\<rparr>) of
       Inl e \<Rightarrow> Inl e
     | Inr st1 \<Rightarrow> receive_word buff cfg s st1)"

definition invalid_edge :: "av_cfg \<Rightarrow> av_state \<Rightarrow> error + av_state" where
  "invalid_edge cfg st =
    (if in_pkt st
     then (let st1 = st\<lparr>invalid_cyclecount := invalid_cyclecount st + 1\<rparr>
           in if invalidTimeout cfg \<noteq> 0 \<and> invalid_cyclecount st1 \<ge> invalidTimeout cfg
              then Inl (AvalonProtocolError (InPacketTimeout (invalid_cyclecount st1)))
              else Inr st1)
     else Inr st)"

definition monitor_edge :: "(bool \<Rightarrow> string \<Rightarrow> string) \<Rightarrow> av_cfg \<Rightarrow> av_in \<Rightarrow> av_state \<Rightarrow> error + av_state" where
  "monitor_edge buff cfg s st =
    (if in_reset cfg s then Inr st
     else if av_valid cfg s then valid_edge buff cfg s st
     else invalid_edge cfg st)"

text \<open>\<open>_monitor_recv\<close> over the edges of a simulation, from the state it is in.\<close>

fun monitor_recv :: "(bool \<Rightarrow> string \<Rightarrow> string) \<Rightarrow> av_cfg \<Rightarrow> av_in list \<Rightarrow> av_state \<Rightarrow> error + av_state" where
  "monitor_recv buff cfg [] st = Inr st"
| "monitor_recv buff cfg (s # ss) st =
    (case monitor_edge buff cfg s st of
       Inl e \<Rightarrow> Inl e
     | Inr st' \<Rightarrow> monitor_recv buff cfg ss st')"

text \<open>
  The spec's reading of an edge without valid data inside a packet, for comparison: the
  counter goes up, and the monitor fails once a positive timeout is exceeded.
\<close>

definition spec_invalid_edge :: "av_cfg \<Rightarrow> av_state \<Rightarrow> error + av_state" where
  "spec_invalid_edge cfg st =
    (if in_pkt st
     then (let st1 = st\<lparr>invalid_cyclecount := invalid_cyclecount st + 1\<rparr>
           in if invalidTimeout cfg > 0 \<and> invalid_cyclecount st1 > invalidTimeout cfg
              then Inl (AvalonProtocolError (InPacketTimeout (invalid_cyclecount st1)))
              else Inr st1)
     else Inr st)"

section \<open>Notions used in the statements\<close>

text \<open>A sample of the slave's lines on which \<open>_get_reply\<close> does not fail.\<close>

definition unambiguous :: "wb \<Rightarrow> bus_in \<Rightarrow> bool" where
  "unambiguous m j = (case get_reply (m\<lparr>ins := j\<rparr>) of Inl e \<Rightarrow> False | Inr ac \<Rightarrow> True)"

text \<open>What a clock edge leaves alone: everything but the samples, the replies and the tasks.\<close>

definition same_drive :: "wb \<Rightarrow> wb \<Rightarrow> bool" where
  "same_drive m m' =
    (writes m' = writes m \<and> busy m' = busy m \<and> busy_event m' = busy_event m \<and>
     aux_buf m' = aux_buf m \<and> op_cnt m' = op_cnt m \<and> timeout m' = timeout m \<and>
     log m' = log m \<and> has_stall m' = has_stall m \<and> has_err m' = has_err m \<and>
     has_rty m' = has_rty m)"

text \<open>The acknowledged-operation count is the length of the result buffer.\<close>

definition counted :: "wb \<Rightarrow> bool" where
  "counted m = (acked_ops m = int (length (res_buf m)))"

text \<open>
  What waiting for clock edges keeps, and what driving operations keeps: nothing is taken
  back from the output lines, and the cycle stays as it is.
\<close>

definition edges_only :: "wb \<Rightarrow> wb \<Rightarrow> bool" where
  "edges_only m m' = (same_drive m m' \<and> (counted m \<longrightarrow> counted m'))"

definition cycle_on :: "wb \<Rightarrow> wb \<Rightarrow> bool" where
  "cycle_on m m' =
    (busy m' = busy m \<and> op_cnt m' = op_cnt m \<and> timeout m' = timeout m \<and>
     has_stall m' = has_stall m \<and> has_err m' = has_err m \<and> has_rty m' = has_rty m \<and>
     (counted m \<longrightarrow> counted m') \<and> prefix (writes m) (writes m'))"

text \<open>
  The assignments with which \<open>_drive\<close> asserts strobe for an operation, and all the
  assignments of a driven item: strobe and write enable are lowered at its end.
\<close>

definition strobe_writes :: "int \<Rightarrow> int \<Rightarrow> int \<Rightarrow> int \<Rightarrow> (out_sig \<times> int) list" where
  "strobe_writes we adr datwr sel =
    [(Stb, 1), (Adr, adr), (Sel, sel), (Datwr, datwr), (We, we)]"


text \<open>The auxiliary entry recorded for a submitted item.\<close>

fun recorded :: "wbaux \<Rightarrow> item \<Rightarrow> bool" where
  "recorded aux (Op op) =
    (aux_sel aux = op_sel op \<and> aux_adr aux = op_adr op \<and>
     aux_datwr aux = (case op_dat op of Some d \<Rightarrow> d | None \<Rightarrow> 0) \<and>
     aux_waitIdle aux = op_idle op)"
| "recorded aux Other = False"

text \<open>A result that answers a submitted item.\<close>

fun answers :: "wbres \<Rightarrow> item \<Rightarrow> bool" where
  "answers res (Op op) =
    (res_sel res = Some (op_sel op) \<and> res_adr res = Some (op_adr op) \<and>
     res_datwr res = Some (case op_dat op of Some d \<Rightarrow> d | None \<Rightarrow> 0) \<and>
     res_waitIdle res = op_idle op)"
| "answers res Other = False"

fun txn_data :: "txn \<Rightarrow> string" where
  "txn_data (Packet p) = p"
| "txn_data (PacketOnChannel p c) = p"

text \<open>
  What holds of the monitor's variables between two edges: the packet is open exactly when
  bytes have been gathered, and outside a packet no channel is latched.
\<close>

definition between_edges :: "av_state \<Rightarrow> bool" where
  "between_edges st = ((in_pkt st \<longleftrightarrow> pkt st \<noteq> []) \<and> (\<not> in_pkt st \<longrightarrow> channel st = None))"

subsection \<open>Concrete buses for the examples\<close>

definition quiet :: bus_in where
  "quiet = \<lparr>b_ack = 0, b_err = 0, b_rty = 0, b_stall = 0, b_datrd = 0\<rparr>"

definition classic :: wb where
  "classic = WishboneMaster None False True True 15 quiet"

definition pipelined :: "int \<Rightarrow> wb" where
  "pipelined t = WishboneMaster (Some t) True True True 15 quiet"

definition stalling :: bus_in where
  "stalling = quiet\<lparr>b_stall := 1\<rparr>"

text \<open>The pipelined master as \<open>_open_cycle\<close> leaves it.\<close>

definition cycle_open :: "int \<Rightarrow> wb" where
  "cycle_open t =
    (pipelined t)\<lparr>busy := True, writes := writes (pipelined t) @ [(Cyc, 1)],
                   read_task := True, count_task := True\<rparr>"

definition acking :: "int \<Rightarrow> bus_in" where
  "acking d = quiet\<lparr>b_ack := 1, b_datrd := d\<rparr>"

definition write_op :: "int \<Rightarrow> int \<Rightarrow> item" where
  "write_op a d = Op \<lparr>op_adr = a, op_dat = Some d, op_sel = 15, op_idle = Some 0\<rparr>"

definition read_op :: "int \<Rightarrow> int \<Rightarrow> item" where
  "read_op a n = Op \<lparr>op_adr = a, op_dat = None, op_sel = 15, op_idle = Some n\<rparr>"

definition sequence :: "item list \<Rightarrow> pyarg" where
  "sequence xs = \<lparr>a_strip = False, a_getitem = True, a_iter = True, a_items = xs\<rparr>"


definition idle_monitor :: "txn monitor" where
  "idle_monitor =
    \<lparr>received_transactions = 0, callbacks = [], calls = [], recvQ = [], event = None,
     wait_event = Some \<lparr>ev_fired = False, ev_data = None, ev_sets = []\<rparr>\<rparr>"

definition plain_cfg :: av_cfg where
  "plain_cfg =
    \<lparr>dataBitsPerSymbol = 8, firstSymbolInHighOrderBits = True, maxChannel = 0,
     invalidTimeout = 0, useEmpty = False, report_channel = False, has_reset_n = False,
     has_reset = False, has_ready = False, has_channel = False\<rparr>"

definition beat :: "bool \<Rightarrow> bool \<Rightarrow> bool \<Rightarrow> string \<Rightarrow> int \<Rightarrow> av_in" where
  "beat v sop eop d e =
    \<lparr>v_reset_n = 1, v_reset = 0, v_valid = v, v_ready = True, v_startofpacket = sop,
     v_endofpacket = eop, v_data = d, v_empty = e, v_channel = 0\<rparr>"

section \<open>Reply arbitration and delivery\<close>

text \<open>
  Claim C3. At an edge sampled by the reply collector at most one of the ack, err and rty
  lines may be asserted: with none asserted \<open>_get_reply\<close> reports no reply (code 0); with
  exactly one it returns that line's code (1 for ack, 2 for err, 3 for rty); and any two
  at once (ack with err, ack with rty, err with rty) raise a fatal failure.
\<close>

theorem get_reply_arbitration:
  "(\<not> ack_line m \<and> \<not> err_line m \<and> \<not> rty_line m \<longrightarrow> get_reply m = Inr (False, 0)) \<and>
   (ack_line m \<and> \<not> err_line m \<and> \<not> rty_line m \<longrightarrow> get_reply m = Inr (True, 1)) \<and>
   (\<not> ack_line m \<and> err_line m \<and> \<not> rty_line m \<longrightarrow> get_reply m = Inr (True, 2)) \<and>
   (\<not> ack_line m \<and> \<not> err_line m \<and> rty_line m \<longrightarrow> get_reply m = Inr (True, 3)) \<and>
   (ack_line m \<and> err_line m \<longrightarrow> get_reply m = Inl (TestFailure AckAndErr)) \<and>
   (ack_line m \<and> \<not> err_line m \<and> rty_line m \<longrightarrow>
      get_reply m = Inl (TestFailure (ReplyAndRty True))) \<and>
   (\<not> ack_line m \<and> err_line m \<and> rty_line m \<longrightarrow>
      get_reply m = Inl (TestFailure (ReplyAndRty False)))"
  by (simp add: get_reply_def reply_err_def reply_rty_def ack_line_def err_line_def
      rty_line_def)

theorem get_reply_arbitration_witness:
  "get_reply (classic\<lparr>ins := quiet\<rparr>) = Inr (False, 0) \<and>
   get_reply (classic\<lparr>ins := quiet\<lparr>b_ack := 1\<rparr>\<rparr>) = Inr (True, 1) \<and>
   get_reply (classic\<lparr>ins := quiet\<lparr>b_err := 1\<rparr>\<rparr>) = Inr (True, 2) \<and>
   get_reply (classic\<lparr>ins := quiet\<lparr>b_rty := 1\<rparr>\<rparr>) = Inr (True, 3) \<and>
   get_reply (classic\<lparr>ins := quiet\<lparr>b_ack := 1, b_err := 1\<rparr>\<rparr>) = Inl (TestFailure AckAndErr) \<and>
   get_reply (classic\<lparr>ins := quiet\<lparr>b_ack := 1, b_rty := 1\<rparr>\<rparr>) =
     Inl (TestFailure (ReplyAndRty True)) \<and>
   get_reply (classic\<lparr>ins := quiet\<lparr>b_err := 1, b_rty := 1\<rparr>\<rparr>) =
     Inl (TestFailure (ReplyAndRty False))"
  using get_reply_arbitration [of "classic\<lparr>ins := quiet\<rparr>"]
        get_reply_arbitration [of "classic\<lparr>ins := quiet\<lparr>b_ack := 1\<rparr>\<rparr>"]
        get_reply_arbitration [of "classic\<lparr>ins := quiet\<lparr>b_err := 1\<rparr>\<rparr>"]
        get_reply_arbitration [of "classic\<lparr>ins := quiet\<lparr>b_rty := 1\<rparr>\<rparr>"]
        get_reply_arbitration [of "classic\<lparr>ins := quiet\<lparr>b_ack := 1, b_err := 1\<rparr>\<rparr>"]
        get_reply_arbitration [of "classic\<lparr>ins := quiet\<lparr>b_ack := 1, b_rty := 1\<rparr>\<rparr>"]
        get_reply_arbitration [of "classic\<lparr>ins := quiet\<lparr>b_err := 1, b_rty := 1\<rparr>\<rparr>"]
  by (simp add: ack_line_def err_line_def rty_line_def classic_def WishboneMaster_def
      quiet_def)

text \<open>
  Claim C10. A call of \<open>_drive\<close> while no cycle is open (\<open>busy\<close> is false) waits for no
  clock edge and assigns no output line: stb, adr, sel, datwr and we keep their values,
  and the call only logs an error. The samples still to come and every field of the driver
  but the log are as before.
\<close>

theorem drive_outside_cycle:
  "\<not> busy m \<Longrightarrow>
   drive we adr datwr sel idle m tr = (Done (), m\<lparr>log := log m @ [OutsideCycle]\<rparr>, tr)"
  by (simp add: drive_def)

theorem drive_outside_cycle_witness:
  "\<not> busy classic \<and>
   drive 1 16 170 15 (Some 3) classic [quiet, quiet] =
     (Done (), classic\<lparr>log := [OutsideCycle]\<rparr>, [quiet, quiet]) \<and>
   writes (classic\<lparr>log := [OutsideCycle]\<rparr>) = writes classic"
  using drive_outside_cycle [of classic 1 16 170 15 "Some 3" "[quiet, quiet]"]
  by (simp add: classic_def WishboneMaster_def)

text \<open>
  Claim C9. For a transaction delivered to \<open>_recv\<close>: every registered callback is called
  with it, in order; it is appended to the receive queue exactly when no callback is
  registered; and in both cases the wait event is set with the transaction as its data
  (the flag is lowered again at once, the data stays) and the count of received
  transactions goes up by one.
\<close>

theorem recv_delivers:
  "wait_event m = Some e \<Longrightarrow>
   calls (recv t m) = calls m @ map (\<lambda>callback. (callback, t)) (callbacks m) \<and>
   (callbacks m = [] \<longrightarrow> recvQ (recv t m) = recvQ m @ [t]) \<and>
   (callbacks m \<noteq> [] \<longrightarrow> recvQ (recv t m) = recvQ m) \<and>
   wait_event (recv t m) = Some (ev_clear (ev_set t e)) \<and>
   ev_data (ev_clear (ev_set t e)) = Some t \<and>
   ev_sets (ev_clear (ev_set t e)) = ev_sets e @ [t] \<and>
   received_transactions (recv t m) = received_transactions m + 1"
  by (simp add: recv_def Let_def ev_set_def ev_clear_def split: option.splits)

theorem recv_delivers_witness:
  "recvQ (recv (Packet ''ab'') idle_monitor) = [Packet ''ab''] \<and>
   calls (recv (Packet ''ab'') idle_monitor) = [] \<and>
   received_transactions (recv (Packet ''ab'') idle_monitor) = 1 \<and>
   recvQ (recv (Packet ''ab'') (idle_monitor\<lparr>callbacks := [7, 9]\<rparr>)) = [] \<and>
   calls (recv (Packet ''ab'') (idle_monitor\<lparr>callbacks := [7, 9]\<rparr>)) =
     [(7, Packet ''ab''), (9, Packet ''ab'')] \<and>
   wait_event (recv (Packet ''ab'') (idle_monitor\<lparr>callbacks := [7, 9]\<rparr>)) =
     Some \<lparr>ev_fired = False, ev_data = Some (Packet ''ab''), ev_sets = [Packet ''ab'']\<rparr>"
  using recv_delivers [of idle_monitor
          "\<lparr>ev_fired = False, ev_data = None, ev_sets = []\<rparr>" "Packet ''ab''"]
        recv_delivers [of "idle_monitor\<lparr>callbacks := [7, 9]\<rparr>"
          "\<lparr>ev_fired = False, ev_data = None, ev_sets = []\<rparr>" "Packet ''ab''"]
  by (simp add: idle_monitor_def ev_set_def ev_clear_def)

section \<open>The packet monitor\<close>

subsection \<open>What the phases of a valid edge keep\<close>

lemma start_packet_count:
  "start_packet s st = Inr st1 \<Longrightarrow> invalid_cyclecount st1 = invalid_cyclecount st"
  by (auto simp: start_packet_def split: if_splits)

lemma data_word_keeps:
  "data_word cfg s st = Inr (vec, st2) \<Longrightarrow>
   pkt st2 = pkt st \<and> in_pkt st2 = in_pkt st \<and> channel st2 = channel st \<and>
   mon st2 = mon st \<and> invalid_cyclecount st2 = invalid_cyclecount st \<and>
   (\<not> v_endofpacket s \<longrightarrow> vec = v_data s)"
  by (auto simp: data_word_def mask_empty_def Let_def split: if_splits option.splits)

lemma check_channel_keeps:
  "check_channel cfg s st = Inr st3 \<Longrightarrow>
   pkt st3 = pkt st \<and> in_pkt st3 = in_pkt st \<and> mon st3 = mon st \<and>
   invalid_cyclecount st3 = invalid_cyclecount st"
  by (auto simp: check_channel_def split: if_splits option.splits)

lemma receive_word_parts:
  assumes "receive_word buff cfg s st1 = Inr st'"
  obtains vec st2 st3 where "in_pkt st1"
    and "data_word cfg s st1 = Inr (vec, st2)"
    and "check_channel cfg s
           (st2\<lparr>pkt := pkt st2 @ buff (firstSymbolInHighOrderBits cfg) vec\<rparr>) = Inr st3"
    and "st' = end_packet cfg s st3"
  using assms by (auto simp: receive_word_def split: if_splits sum.splits)

lemma valid_edge_count:
  assumes "valid_edge buff cfg s st = Inr st'"
  shows "invalid_cyclecount st' = 0"
proof -
  from assms obtain st1 where s1: "start_packet s (st\<lparr>invalid_cyclecount := 0\<rparr>) = Inr st1"
    and r: "receive_word buff cfg s st1 = Inr st'"
    by (auto simp: valid_edge_def split: sum.splits)
  from r obtain vec st2 st3 where d: "data_word cfg s st1 = Inr (vec, st2)"
    and c: "check_channel cfg s
              (st2\<lparr>pkt := pkt st2 @ buff (firstSymbolInHighOrderBits cfg) vec\<rparr>) = Inr st3"
    and e: "st' = end_packet cfg s st3"
    by (rule receive_word_parts)
  have "invalid_cyclecount st1 = 0" using start_packet_count [OF s1] by simp
  then have "invalid_cyclecount st2 = 0" using data_word_keeps [OF d] by simp
  then have "invalid_cyclecount st3 = 0" using check_channel_keeps [OF c] by simp
  then show ?thesis using e by (simp add: end_packet_def)
qed

subsection \<open>The state between two edges\<close>

lemma receive_word_between:
  assumes r: "receive_word buff cfg s st1 = Inr st'"
    and w: "v_data s \<noteq> []"
    and b: "\<And>be v. v \<noteq> [] \<Longrightarrow> buff be v \<noteq> []"
  shows "between_edges st'"
proof -
  from r obtain vec st2 st3 where i: "in_pkt st1"
    and d: "data_word cfg s st1 = Inr (vec, st2)"
    and c: "check_channel cfg s
              (st2\<lparr>pkt := pkt st2 @ buff (firstSymbolInHighOrderBits cfg) vec\<rparr>) = Inr st3"
    and e: "st' = end_packet cfg s st3"
    by (rule receive_word_parts)
  show ?thesis
  proof (cases "v_endofpacket s")
    case True
    then show ?thesis using e by (simp add: end_packet_def between_edges_def)
  next
    case False
    then have "vec = v_data s" and "in_pkt st2" using data_word_keeps [OF d] i by simp_all
    then have "pkt st3 \<noteq> []" and "in_pkt st3"
      using check_channel_keeps [OF c] b [OF w] by simp_all
    then show ?thesis using e False by (simp add: end_packet_def between_edges_def)
  qed
qed

lemma monitor_edge_between:
  assumes "monitor_edge buff cfg s st = Inr st'" and "between_edges st"
    and "v_data s \<noteq> []" and "\<And>be v. v \<noteq> [] \<Longrightarrow> buff be v \<noteq> []"
  shows "between_edges st'"
proof (cases "in_reset cfg s")
  case True
  then show ?thesis using assms(1,2) by (simp add: monitor_edge_def)
next
  case False
  show ?thesis
  proof (cases "av_valid cfg s")
    case True
    with False assms(1) obtain st1 where
      "receive_word buff cfg s st1 = Inr st'"
      by (auto simp: monitor_edge_def valid_edge_def split: sum.splits)
    then show ?thesis using assms(3,4) by (rule receive_word_between)
  next
    case v: False
    then show ?thesis using False assms(1,2)
      by (auto simp: monitor_edge_def invalid_edge_def Let_def between_edges_def
          split: if_splits)
  qed
qed

lemma monitor_recv_between:
  assumes "\<And>be v. v \<noteq> [] \<Longrightarrow> buff be v \<noteq> []"
  shows "monitor_recv buff cfg ss st = Inr st' \<Longrightarrow> between_edges st \<Longrightarrow>
    \<forall>x \<in> set ss. v_data x \<noteq> [] \<Longrightarrow> between_edges st'"
proof (induction ss arbitrary: st)
  case Nil
  then show ?case by simp
next
  case (Cons s ss)
  then obtain st1 where e: "monitor_edge buff cfg s st = Inr st1"
    and r: "monitor_recv buff cfg ss st1 = Inr st'"
    by (auto split: sum.splits)
  have "between_edges st1"
    using e Cons.prems(2) _ assms by (rule monitor_edge_between) (use Cons.prems(3) in simp)
  then show ?case using Cons.IH [OF r] Cons.prems(3) by simp
qed

lemma av_start_between: "between_edges (av_start m)"
  by (simp add: av_start_def between_edges_def)

subsection \<open>The byte view used in the examples\<close>

lemma bytes_of_nonempty: "8 \<le> length xs \<Longrightarrow> bytes_of xs \<noteq> []"
  by (cases xs rule: bytes_of.cases) simp_all

lemma padded_length:
  fixes n :: nat
  assumes "0 < n"
  shows "8 \<le> (8 - n mod 8) mod 8 + n"
proof (cases "n mod 8 = 0")
  case True
  then have "8 dvd n" by (simp add: dvd_eq_mod_eq_0)
  then have "8 \<le> n" using assms by (rule dvd_imp_le)
  then show ?thesis by simp
next
  case False
  have r: "n mod 8 < 8" by simp
  have le: "n mod 8 \<le> n" by (rule mod_less_eq_dividend)
  have "8 - n mod 8 < 8" using False by simp
  then have "(8 - n mod 8) mod 8 = 8 - n mod 8" by (rule mod_less)
  then show ?thesis using le r by simp
qed

lemma get_buff_nonempty: "v \<noteq> [] \<Longrightarrow> get_buff be v \<noteq> []"
proof -
  assume "v \<noteq> []"
  then have p: "0 < length v" by simp
  define bits where "bits = replicate ((8 - length v mod 8) mod 8) (CHR ''0'') @ v"
  have "length bits = (8 - length v mod 8) mod 8 + length v" by (simp add: bits_def)
  then have "8 \<le> length bits" using padded_length [OF p] by simp
  then have "bytes_of bits \<noteq> []" by (rule bytes_of_nonempty)
  then show ?thesis by (simp add: get_buff_def Let_def bits_def [symmetric])
qed

subsection \<open>Framing\<close>

text \<open>
  Claim C6. At most one packet is open at a time. In any state the monitor reaches from its
  start, on a valid edge: a start-of-packet while a packet is open raises the duplicate-start
  error; a transfer without start-of-packet while no packet is open raises the
  outside-of-packet error; and a start-of-packet while idle opens a packet with an empty
  byte accumulator and no channel latched, from which the word of the edge is received.
  The data line has at least one bit, and the byte view of a non-empty value is non-empty.
\<close>

theorem one_packet_open:
  assumes "\<And>be v. v \<noteq> [] \<Longrightarrow> buff be v \<noteq> []"
    and "\<forall>x \<in> set ss. v_data x \<noteq> []"
    and "monitor_recv buff cfg ss (av_start m) = Inr st"
    and "\<not> in_reset cfg s" and "av_valid cfg s"
  shows
    "(v_startofpacket s \<and> in_pkt st \<longrightarrow>
        monitor_edge buff cfg s st = Inl (AvalonProtocolError DuplicateStart)) \<and>
     (\<not> v_startofpacket s \<and> \<not> in_pkt st \<longrightarrow>
        monitor_edge buff cfg s st = Inl (AvalonProtocolError OutsidePacket)) \<and>
     (v_startofpacket s \<and> \<not> in_pkt st \<longrightarrow>
        channel st = None \<and>
        monitor_edge buff cfg s st =
          receive_word buff cfg s (st\<lparr>invalid_cyclecount := 0, pkt := [], in_pkt := True\<rparr>))"
proof -
  have b: "between_edges st"
    using assms(1) assms(3) av_start_between assms(2) by (rule monitor_recv_between)
  show ?thesis
    using b assms(4,5)
    by (auto simp: monitor_edge_def valid_edge_def start_packet_def receive_word_def
        between_edges_def)
qed

theorem one_packet_open_witness:
  "monitor_recv get_buff plain_cfg [beat True True False ''01000001'' 0]
     (av_start idle_monitor) =
     Inr ((av_start idle_monitor)\<lparr>pkt := ''A'', in_pkt := True\<rparr>) \<and>
   monitor_edge get_buff plain_cfg (beat True True False ''01000010'' 0)
     ((av_start idle_monitor)\<lparr>pkt := ''A'', in_pkt := True\<rparr>) =
     Inl (AvalonProtocolError DuplicateStart) \<and>
   monitor_recv get_buff plain_cfg [] (av_start idle_monitor) = Inr (av_start idle_monitor) \<and>
   monitor_edge get_buff plain_cfg (beat True False False ''01000010'' 0)
     (av_start idle_monitor) = Inl (AvalonProtocolError OutsidePacket) \<and>
   monitor_edge get_buff plain_cfg (beat True True False ''01000010'' 0)
     (av_start idle_monitor) =
     receive_word get_buff plain_cfg (beat True True False ''01000010'' 0)
       ((av_start idle_monitor)\<lparr>invalid_cyclecount := 0, pkt := [], in_pkt := True\<rparr>)"
proof -
  have g: "\<And>be v. v \<noteq> [] \<Longrightarrow> get_buff be v \<noteq> []"
    by (rule get_buff_nonempty)
  have r: "monitor_recv get_buff plain_cfg [beat True True False ''01000001'' 0]
      (av_start idle_monitor) =
     Inr ((av_start idle_monitor)\<lparr>pkt := ''A'', in_pkt := True\<rparr>)"
    by code_simp
  have r0: "monitor_recv get_buff plain_cfg [] (av_start idle_monitor) =
     Inr (av_start idle_monitor)"
    by simp
  have w: "\<forall>x \<in> set [beat True True False ''01000001'' 0]. v_data x \<noteq> []"
    by (simp add: beat_def)
  have w0: "\<forall>x \<in> set ([] :: av_in list). v_data x \<noteq> []"
    by simp
  have n: "\<not> in_reset plain_cfg (beat True sop False ''01000010'' 0)" for sop
    by (simp add: in_reset_def plain_cfg_def)
  have v: "av_valid plain_cfg (beat True sop False ''01000010'' 0)" for sop
    by (simp add: av_valid_def plain_cfg_def beat_def)
  show ?thesis
    using one_packet_open [OF g w r n v, of True]
      one_packet_open [OF g w0 r0 n v, of False]
      one_packet_open [OF g w0 r0 n v, of True] r
    by (simp add: beat_def av_start_def)
qed

subsection \<open>Edges without valid data\<close>

text \<open>
  Claim C7, as amended. On a monitored edge while the bus is not in reset: without valid
  data and with a packet open the invalid-cycle counter goes up by one, and the monitor
  fails as soon as the counter has reached a configured (non-zero) timeout, that is when
  the counter is at least the timeout, not only once it is past it; without a packet open
  nothing changes; with valid data the counter is zero afterwards; and while the bus is in
  reset the edge changes nothing.
\<close>

theorem invalid_cycle_timeout:
  "(in_reset cfg s \<longrightarrow> monitor_edge buff cfg s st = Inr st) \<and>
   (\<not> in_reset cfg s \<and> \<not> av_valid cfg s \<and> \<not> in_pkt st \<longrightarrow>
      monitor_edge buff cfg s st = Inr st) \<and>
   (\<not> in_reset cfg s \<and> \<not> av_valid cfg s \<and> in_pkt st \<and>
    (invalidTimeout cfg = 0 \<or> invalid_cyclecount st + 1 < invalidTimeout cfg) \<longrightarrow>
      monitor_edge buff cfg s st =
        Inr (st\<lparr>invalid_cyclecount := invalid_cyclecount st + 1\<rparr>)) \<and>
   (\<not> in_reset cfg s \<and> \<not> av_valid cfg s \<and> in_pkt st \<and>
    invalidTimeout cfg \<noteq> 0 \<and> invalidTimeout cfg \<le> invalid_cyclecount st + 1 \<longrightarrow>
      monitor_edge buff cfg s st =
        Inl (AvalonProtocolError (InPacketTimeout (invalid_cyclecount st + 1)))) \<and>
   (\<not> in_reset cfg s \<and> av_valid cfg s \<longrightarrow>
      (\<forall>st'. monitor_edge buff cfg s st = Inr st' \<longrightarrow> invalid_cyclecount st' = 0))"
  by (auto simp: monitor_edge_def invalid_edge_def Let_def dest: valid_edge_count)

theorem invalid_cycle_timeout_witness:
  "monitor_edge get_buff (plain_cfg\<lparr>has_reset := True\<rparr>)
     ((beat True True False ''01000001'' 0)\<lparr>v_reset := 1\<rparr>) (av_start idle_monitor) =
     Inr (av_start idle_monitor) \<and>
   monitor_edge get_buff plain_cfg (beat False True False ''01000001'' 0)
     (av_start idle_monitor) = Inr (av_start idle_monitor) \<and>
   monitor_edge get_buff (plain_cfg\<lparr>invalidTimeout := 3\<rparr>)
     (beat False False False ''01000001'' 0)
     ((av_start idle_monitor)\<lparr>pkt := ''A'', in_pkt := True, invalid_cyclecount := 1\<rparr>) =
     Inr ((av_start idle_monitor)\<lparr>pkt := ''A'', in_pkt := True, invalid_cyclecount := 2\<rparr>) \<and>
   monitor_edge get_buff (plain_cfg\<lparr>invalidTimeout := 3\<rparr>)
     (beat False False False ''01000001'' 0)
     ((av_start idle_monitor)\<lparr>pkt := ''A'', in_pkt := True, invalid_cyclecount := 2\<rparr>) =
     Inl (AvalonProtocolError (InPacketTimeout 3)) \<and>
   monitor_edge get_buff plain_cfg (beat True True False ''01000001'' 0)
     ((av_start idle_monitor)\<lparr>invalid_cyclecount := 5\<rparr>) =
     Inr ((av_start idle_monitor)\<lparr>pkt := ''A'', in_pkt := True, invalid_cyclecount := 0\<rparr>)"
proof -
  have v: "monitor_edge get_buff plain_cfg (beat True True False ''01000001'' 0)
     ((av_start idle_monitor)\<lparr>invalid_cyclecount := 5\<rparr>) =
     Inr ((av_start idle_monitor)\<lparr>pkt := ''A'', in_pkt := True, invalid_cyclecount := 0\<rparr>)"
    by code_simp
  show ?thesis
  using v invalid_cycle_timeout [of "plain_cfg\<lparr>has_reset := True\<rparr>"
      "(beat True True False ''01000001'' 0)\<lparr>v_reset := 1\<rparr>" get_buff "av_start idle_monitor"]
    invalid_cycle_timeout [of plain_cfg "beat False True False ''01000001'' 0" get_buff
      "av_start idle_monitor"]
    invalid_cycle_timeout [of "plain_cfg\<lparr>invalidTimeout := 3\<rparr>"
      "beat False False False ''01000001'' 0" get_buff
      "(av_start idle_monitor)\<lparr>pkt := ''A'', in_pkt := True, invalid_cyclecount := 1\<rparr>"]
    invalid_cycle_timeout [of "plain_cfg\<lparr>invalidTimeout := 3\<rparr>"
      "beat False False False ''01000001'' 0" get_buff
      "(av_start idle_monitor)\<lparr>pkt := ''A'', in_pkt := True, invalid_cyclecount := 2\<rparr>"]
    invalid_cycle_timeout [of plain_cfg "beat True True False ''01000001'' 0" get_buff
      "(av_start idle_monitor)\<lparr>invalid_cyclecount := 5\<rparr>"]
  by (simp add: plain_cfg_def beat_def in_reset_def av_valid_def av_start_def)
qed

text \<open>
  The claim as it stands fails: with a timeout of 3 the monitor, started on a packet, fails
  on the third edge without valid data, when the counter is 3 and the timeout is reached
  but not exceeded; the spec's reading lets that edge pass.
\<close>

theorem invalid_cycle_timeout_counterexample:
  "monitor_recv get_buff (plain_cfg\<lparr>invalidTimeout := 3\<rparr>)
     [beat True True False ''01000001'' 0, beat False False False ''01000001'' 0,
      beat False False False ''01000001'' 0] (av_start idle_monitor) =
     Inr ((av_start idle_monitor)\<lparr>pkt := ''A'', in_pkt := True, invalid_cyclecount := 2\<rparr>) \<and>
   monitor_edge get_buff (plain_cfg\<lparr>invalidTimeout := 3\<rparr>)
     (beat False False False ''01000001'' 0)
     ((av_start idle_monitor)\<lparr>pkt := ''A'', in_pkt := True, invalid_cyclecount := 2\<rparr>) =
     Inl (AvalonProtocolError (InPacketTimeout 3)) \<and>
   spec_invalid_edge (plain_cfg\<lparr>invalidTimeout := 3\<rparr>)
     ((av_start idle_monitor)\<lparr>pkt := ''A'', in_pkt := True, invalid_cyclecount := 2\<rparr>) =
     Inr ((av_start idle_monitor)\<lparr>pkt := ''A'', in_pkt := True, invalid_cyclecount := 3\<rparr>)"
  by code_simp

subsection \<open>Empty symbols\<close>

text \<open>
  Claim C8. On a valid edge with end-of-packet, on a bus with several symbols per word, the
  monitor cuts the empty symbols (\<open>empty\<close> times the bits per symbol) off the data word
  before the word is appended: the trailing, low-order bits when
  \<open>firstSymbolInHighOrderBits\<close> is set, the leading bits otherwise. When what is left
  holds an unresolvable bit the edge raises an error (the protocol error whenever symbols
  were cut); otherwise the bytes of what is left end the packet that is delivered.
\<close>

theorem empty_masking:
  assumes "\<not> in_reset cfg s" and "av_valid cfg s" and "useEmpty cfg" and "v_endofpacket s"
    and "0 \<le> v_empty s" and "0 < dataBitsPerSymbol cfg"
    and "start_packet s (st\<lparr>invalid_cyclecount := 0\<rparr>) = Inr st1" and "in_pkt st1"
  shows
    "let e = v_empty s * dataBitsPerSymbol cfg;
         masked = (if firstSymbolInHighOrderBits cfg
                   then take (length (v_data s) - nat e) (v_data s)
                   else drop (nat e) (v_data s))
     in fst (mask_empty cfg s st1) = masked \<and>
        (\<not> is_resolvable masked \<longrightarrow> (\<exists>err. monitor_edge buff cfg s st = Inl err)) \<and>
        (\<not> is_resolvable masked \<and> 0 < v_empty s \<longrightarrow>
           monitor_edge buff cfg s st = Inl (AvalonProtocolError (StillBad e))) \<and>
        (is_resolvable masked \<longrightarrow>
           monitor_edge buff cfg s st =
             (case check_channel cfg s
                     ((if v_empty s \<noteq> 0 then st1\<lparr>empty_bits := Some e\<rparr> else st1)
                        \<lparr>pkt := pkt st1 @ buff (firstSymbolInHighOrderBits cfg) masked\<rparr>) of
                Inl err \<Rightarrow> Inl err
              | Inr st3 \<Rightarrow> Inr (end_packet cfg s st3))) \<and>
        (\<forall>st'. monitor_edge buff cfg s st = Inr st' \<longrightarrow>
           (\<exists>t. mon st' = recv t (mon st1) \<and>
                txn_data t = pkt st1 @ buff (firstSymbolInHighOrderBits cfg) masked))"
proof -
  define e where "e = v_empty s * dataBitsPerSymbol cfg"
  define masked where "masked = (if firstSymbolInHighOrderBits cfg
                   then take (length (v_data s) - nat e) (v_data s)
                   else drop (nat e) (v_data s))"
  define st2 where "st2 = (if v_empty s \<noteq> 0 then st1\<lparr>empty_bits := Some e\<rparr> else st1)"
  have e0: "0 \<le> e" "v_empty s = 0 \<Longrightarrow> e = 0" "0 < v_empty s \<Longrightarrow> 0 < e"
    using assms(5,6) by (simp_all add: e_def)
  have mk: "mask_empty cfg s st1 = (masked, st2)"
  proof (cases "v_empty s = 0")
    case True
    then show ?thesis using e0 by (simp add: mask_empty_def masked_def st2_def)
  next
    case False
    then have "0 < e" using e0 assms(5) by simp
    then show ?thesis using False assms(3)
      by (simp add: mask_empty_def masked_def st2_def Let_def e_def [symmetric]
          slice_upto_def slice_from_def nat_diff_distrib')
  qed
  have m: "fst (mask_empty cfg s st1) = masked"
    by (simp add: mk)
  have me: "monitor_edge buff cfg s st = receive_word buff cfg s st1"
    using assms by (simp add: monitor_edge_def valid_edge_def)
  have bad: "\<not> is_resolvable masked \<Longrightarrow> \<exists>err. monitor_edge buff cfg s st = Inl err"
    using assms(4,8) unfolding me receive_word_def data_word_def mk
    by (auto split: option.splits)
  have bad2: "\<not> is_resolvable masked \<Longrightarrow> 0 < v_empty s \<Longrightarrow>
     monitor_edge buff cfg s st = Inl (AvalonProtocolError (StillBad e))"
    using assms(4,8) unfolding me receive_word_def data_word_def mk
    by (simp add: st2_def)
  have good: "is_resolvable masked \<Longrightarrow> monitor_edge buff cfg s st =
             (case check_channel cfg s
                     (st2\<lparr>pkt := pkt st1 @ buff (firstSymbolInHighOrderBits cfg) masked\<rparr>) of
                Inl err \<Rightarrow> Inl err
              | Inr st3 \<Rightarrow> Inr (end_packet cfg s st3))"
    using assms(4,8) unfolding me receive_word_def data_word_def mk
    by (simp add: st2_def)
  have sent: "\<exists>t. mon st' = recv t (mon st1) \<and>
                txn_data t = pkt st1 @ buff (firstSymbolInHighOrderBits cfg) masked"
    if ok: "monitor_edge buff cfg s st = Inr st'" for st'
  proof -
    have res: "is_resolvable masked" using bad ok by auto
    from ok good [OF res] obtain st3 where
      c: "check_channel cfg s
            (st2\<lparr>pkt := pkt st1 @ buff (firstSymbolInHighOrderBits cfg) masked\<rparr>) = Inr st3"
      and e: "st' = end_packet cfg s st3"
      by (auto split: sum.splits)
    have k: "pkt st3 = pkt st1 @ buff (firstSymbolInHighOrderBits cfg) masked"
      "mon st3 = mon st1"
      using check_channel_keeps [OF c] by (simp_all add: st2_def)
    show ?thesis
      using e k assms(4) by (cases "report_channel cfg") (auto simp: end_packet_def)
  qed
  show ?thesis
    unfolding Let_def e_def [symmetric] masked_def [symmetric] st2_def [symmetric]
    using m bad bad2 good sent by blast
qed

theorem empty_masking_witness:
  "fst (mask_empty (plain_cfg\<lparr>useEmpty := True\<rparr>) (beat True True True ''01000001xxxxxxxx'' 1)
         ((av_start idle_monitor)\<lparr>pkt := [], in_pkt := True\<rparr>)) = ''01000001'' \<and>
   monitor_edge get_buff (plain_cfg\<lparr>useEmpty := True\<rparr>)
     (beat True True True ''01000001xxxxxxxx'' 1) (av_start idle_monitor) =
     Inr ((av_start idle_monitor)
            \<lparr>empty_bits := Some 8, mon := recv (Packet ''A'') idle_monitor\<rparr>) \<and>
   fst (mask_empty (plain_cfg\<lparr>useEmpty := True, firstSymbolInHighOrderBits := False\<rparr>)
         (beat True True True ''xxxxxxxx01000001'' 1)
         ((av_start idle_monitor)\<lparr>pkt := [], in_pkt := True\<rparr>)) = ''01000001'' \<and>
   monitor_edge get_buff (plain_cfg\<lparr>useEmpty := True\<rparr>)
     (beat True True True ''0100000x01000001'' 1) (av_start idle_monitor) =
     Inl (AvalonProtocolError (StillBad 8))"
proof -
  let ?st = "av_start idle_monitor"
  let ?st1 = "(av_start idle_monitor)\<lparr>pkt := [], in_pkt := True\<rparr>"
  have n: "\<not> in_reset (plain_cfg\<lparr>useEmpty := True, firstSymbolInHighOrderBits := f\<rparr>)
      (beat True True True d 1)" for d f
    by (simp add: in_reset_def plain_cfg_def)
  have v: "av_valid (plain_cfg\<lparr>useEmpty := True, firstSymbolInHighOrderBits := f\<rparr>)
      (beat True True True d 1)" for d f
    by (simp add: av_valid_def plain_cfg_def beat_def)
  have u: "useEmpty (plain_cfg\<lparr>useEmpty := True, firstSymbolInHighOrderBits := f\<rparr>)" for f
    by simp
  have eop: "v_endofpacket (beat True True True d 1)" for d
    by (simp add: beat_def)
  have em: "0 \<le> v_empty (beat True True True d 1)" for d
    by (simp add: beat_def)
  have bps: "0 < dataBitsPerSymbol (plain_cfg\<lparr>useEmpty := True,
      firstSymbolInHighOrderBits := f\<rparr>)" for f
    by (simp add: plain_cfg_def)
  have sp: "start_packet (beat True True True d 1) (?st\<lparr>invalid_cyclecount := 0\<rparr>) = Inr ?st1"
    for d
    by (simp add: start_packet_def beat_def av_start_def)
  have ip: "in_pkt ?st1" by simp
  have b: "get_buff True ''01000001'' = ''A''" by code_simp
  have hi: "plain_cfg\<lparr>useEmpty := True, firstSymbolInHighOrderBits := True\<rparr> =
      plain_cfg\<lparr>useEmpty := True\<rparr>"
    by (simp add: plain_cfg_def)
  have r: "monitor_edge get_buff (plain_cfg\<lparr>useEmpty := True\<rparr>)
     (beat True True True ''01000001xxxxxxxx'' 1) (av_start idle_monitor) =
     Inr ((av_start idle_monitor)
            \<lparr>empty_bits := Some 8, mon := recv (Packet ''A'') idle_monitor\<rparr>)"
    by code_simp
  show ?thesis
    using r empty_masking [OF n [where f = True and d = "''01000001xxxxxxxx''"]
        v u eop em bps sp ip, where buff = get_buff]
      empty_masking [OF n [where f = False and d = "''xxxxxxxx01000001''"]
        v u eop em bps sp ip, where buff = get_buff]
      empty_masking [OF n [where f = True and d = "''0100000x01000001''"]
        v u eop em bps sp ip, where buff = get_buff]
    unfolding hi
    by (simp add: Let_def beat_def plain_cfg_def is_resolvable_def b av_start_def)
qed

section \<open>The Wishbone master\<close>

subsection \<open>What a clock edge keeps\<close>

lemma same_drive_refl [simp]: "same_drive m m"
  by (simp add: same_drive_def)

lemma same_drive_trans: "same_drive a b \<Longrightarrow> same_drive b c \<Longrightarrow> same_drive a c"
  by (simp add: same_drive_def)

lemma edges_only_refl [simp]: "edges_only m m"
  by (simp add: edges_only_def)

lemma edges_only_trans: "edges_only a b \<Longrightarrow> edges_only b c \<Longrightarrow> edges_only a c"
  by (auto simp: edges_only_def intro: same_drive_trans)

lemma edges_only_ins [simp]: "edges_only m (m\<lparr>ins := j\<rparr>)"
  by (simp add: edges_only_def same_drive_def counted_def)

lemma read_body_keeps:
  "read_body m = Inr m' \<Longrightarrow> edges_only m m' \<and> ins m' = ins m"
  by (auto simp: read_body_def edges_only_def same_drive_def counted_def
      split: sum.splits prod.splits if_splits)

lemma read_resume_keeps:
  "read_resume m = Inr m' \<Longrightarrow> edges_only m m' \<and> ins m' = ins m"
  by (auto simp: read_resume_def edges_only_def same_drive_def counted_def
      dest: read_body_keeps split: if_splits)

lemma count_resume_keeps: "edges_only m (count_resume m) \<and> ins (count_resume m) = ins m"
  by (simp add: count_resume_def Let_def edges_only_def same_drive_def counted_def)

lemma edge_keeps:
  assumes "edge j m = Inr m'"
  shows "edges_only m m'" and "ins m' = j"
proof -
  from assms obtain m1 where r: "read_resume (m\<lparr>ins := j\<rparr>) = Inr m1"
    and c: "m' = count_resume m1"
    by (auto simp: edge_def split: sum.splits)
  have "edges_only m (m\<lparr>ins := j\<rparr>)" by simp
  moreover have "edges_only (m\<lparr>ins := j\<rparr>) m1" using read_resume_keeps [OF r] by simp
  moreover have "edges_only m1 m'" using count_resume_keeps [of m1] c by simp
  ultimately show "edges_only m m'" by (blast intro: edges_only_trans)
  show "ins m' = j" using read_resume_keeps [OF r] count_resume_keeps [of m1] c by simp
qed

lemma clock_event_keeps: "clock_event m tr = (r, m', tr') \<Longrightarrow> edges_only m m'"
  by (cases tr) (auto split: sum.splits dest: edge_keeps(1))

lemma wait_forever_keeps: "wait_forever m tr = (r, m', tr') \<Longrightarrow> edges_only m m'"
proof (induction tr arbitrary: m)
  case Nil
  then show ?case by simp
next
  case (Cons j js)
  show ?case
  proof (cases "edge j m")
    case (Inl e)
    then show ?thesis using Cons.prems by auto
  next
    case (Inr m1)
    then have "wait_forever m1 js = (r, m', tr')" using Cons.prems by simp
    then have "edges_only m1 m'" by (rule Cons.IH)
    then show ?thesis using edge_keeps(1) [OF Inr] by (blast intro: edges_only_trans)
  qed
qed

lemma wait_forever_not_Done: "wait_forever m tr \<noteq> (Done u, m', tr')"
  by (induction tr arbitrary: m) (auto split: sum.splits)

lemma idle_loop_keeps: "idle_loop n m tr = (r, m', tr') \<Longrightarrow> edges_only m m'"
proof (induction tr arbitrary: n m)
  case Nil
  then show ?case by (auto split: if_splits)
next
  case (Cons j js)
  show ?case
  proof (cases "0 < n")
    case False
    then show ?thesis using Cons.prems by simp
  next
    case True
    show ?thesis
    proof (cases "edge j m")
      case (Inl e)
      then show ?thesis using Cons.prems True by auto
    next
      case (Inr m1)
      then have "idle_loop (n - 1) m1 js = (r, m', tr')" using Cons.prems True by simp
      then have "edges_only m1 m'" by (rule Cons.IH)
      then show ?thesis using edge_keeps(1) [OF Inr] by (blast intro: edges_only_trans)
    qed
  qed
qed

lemma stall_loop_keeps: "stall_loop c m tr = (r, m', tr') \<Longrightarrow> edges_only m m'"
proof (induction tr arbitrary: c m)
  case Nil
  then show ?case by (auto split: if_splits)
next
  case (Cons j js)
  show ?case
  proof (cases "b_stall (ins m) = 1")
    case False
    then show ?thesis using Cons.prems by simp
  next
    case True
    show ?thesis
    proof (cases "edge j m")
      case (Inl e)
      then show ?thesis using Cons.prems True by auto
    next
      case (Inr m1)
      note k = edge_keeps(1) [OF Inr]
      show ?thesis
      proof (cases "timed_out m1 (c + 1)")
        case t: True
        then show ?thesis using Cons.prems True Inr k by auto
      next
        case f: False
        then have "stall_loop (c + 1) m1 js = (r, m', tr')"
          using Cons.prems True Inr by simp
        then have "edges_only m1 m'" by (rule Cons.IH)
        then show ?thesis using k by (blast intro: edges_only_trans)
      qed
    qed
  qed
qed

lemma ack_loop_keeps: "ack_loop c m tr = (r, m', tr') \<Longrightarrow> edges_only m m'"
proof (induction tr arbitrary: c m)
  case Nil
  then show ?case by (auto split: sum.splits prod.splits if_splits)
next
  case (Cons j js)
  show ?case
  proof (cases "get_reply m")
    case (Inl e)
    then show ?thesis using Cons.prems by auto
  next
    case (Inr ac)
    obtain ack code where ac: "ac = (ack, code)" by (cases ac)
    show ?thesis
    proof (cases ack)
      case True
      then show ?thesis using Cons.prems Inr ac by simp
    next
      case False
      show ?thesis
      proof (cases "edge j m")
        case (Inl e)
        then show ?thesis using Cons.prems Inr ac False by auto
      next
        case m1: (Inr m1)
        then have "ack_loop (c + 1) m1 js = (r, m', tr')"
          using Cons.prems Inr ac False by simp
        then have "edges_only m1 m'" by (rule Cons.IH)
        then show ?thesis using edge_keeps(1) [OF m1] by (blast intro: edges_only_trans)
      qed
    qed
  qed
qed

lemma close_loop_keeps:
  "close_loop c m tr = (r, m', tr') \<Longrightarrow>
   edges_only m m' \<and> (r = Done () \<longrightarrow> \<not> acked_ops m' < op_cnt m')"
proof (induction tr arbitrary: c m)
  case Nil
  then show ?case by (auto split: if_splits)
next
  case (Cons j js)
  show ?case
  proof (cases "acked_ops m < op_cnt m")
    case False
    then show ?thesis using Cons.prems by auto
  next
    case True
    show ?thesis
    proof (cases "timed_out m (c + 1)")
      case t: True
      then show ?thesis using Cons.prems True by auto
    next
      case f: False
      show ?thesis
      proof (cases "edge j m")
        case (Inl e)
        then show ?thesis using Cons.prems True f by auto
      next
        case (Inr m1)
        then have "close_loop (c + 1) m1 js = (r, m', tr')"
          using Cons.prems True f by simp
        then have "edges_only m1 m' \<and> (r = Done () \<longrightarrow> \<not> acked_ops m' < op_cnt m')"
          by (rule Cons.IH)
        then show ?thesis using edge_keeps(1) [OF Inr] by (blast intro: edges_only_trans)
      qed
    qed
  qed
qed

subsection \<open>Stall\<close>

lemma unambiguous_same:
  "has_err m' = has_err m \<Longrightarrow> has_rty m' = has_rty m \<Longrightarrow> unambiguous m' j = unambiguous m j"
  by (simp add: unambiguous_def get_reply_def reply_err_def reply_rty_def Let_def)

lemma unambiguous_edges_only: "edges_only m m' \<Longrightarrow> unambiguous m' j = unambiguous m j"
  by (rule unambiguous_same) (simp_all add: edges_only_def same_drive_def)

lemma unambiguous_edge: "unambiguous m j \<Longrightarrow> \<exists>m'. edge j m = Inr m'"
  by (auto simp: unambiguous_def edge_def read_resume_def read_body_def
      split: sum.splits prod.splits)

lemma stall_loop_times_out:
  "b_stall (ins m) = 1 \<Longrightarrow> timeout m = Some T \<Longrightarrow> c + int (length pre) = T \<Longrightarrow>
   \<forall>x \<in> set pre. b_stall x = 1 \<Longrightarrow> \<forall>x \<in> set (pre @ [j]). unambiguous m x \<Longrightarrow>
   \<exists>m'. stall_loop c m (pre @ j # rest) = (Fail (TestFailure (StallTimeout T)), m', rest) \<and>
        edges_only m m'"
proof (induction pre arbitrary: c m)
  case Nil
  then obtain m1 where e: "edge j m = Inr m1" using unambiguous_edge [of m j] by auto
  note k = edge_keeps(1) [OF e]
  then have "timeout m1 = Some T" using Nil.prems(2) by (simp add: edges_only_def same_drive_def)
  then have "timed_out m1 (c + 1)" using Nil.prems(3) by (simp add: timed_out_def)
  then show ?case using Nil.prems(1) e k \<open>timeout m1 = Some T\<close> by simp
next
  case (Cons x pre)
  then obtain m1 where e: "edge x m = Inr m1" using unambiguous_edge [of m x] by auto
  note k = edge_keeps(1) [OF e]
  then have t: "timeout m1 = Some T"
    using Cons.prems(2) by (simp add: edges_only_def same_drive_def)
  then have n: "\<not> timed_out m1 (c + 1)" using Cons.prems(3) by (simp add: timed_out_def)
  have s: "b_stall (ins m1) = 1" using edge_keeps(2) [OF e] Cons.prems(4) by simp
  have u: "\<forall>y \<in> set (pre @ [j]). unambiguous m1 y"
    using Cons.prems(5) unambiguous_edges_only [OF k] by simp
  have "\<exists>m'. stall_loop (c + 1) m1 (pre @ j # rest) =
      (Fail (TestFailure (StallTimeout T)), m', rest) \<and> edges_only m1 m'"
    using s t _ _ u by (rule Cons.IH) (use Cons.prems in auto)
  then show ?case using Cons.prems(1) e n k by (auto intro: edges_only_trans)
qed

lemma stall_loop_released:
  "b_stall (ins m) = 1 \<Longrightarrow> timeout m = Some T \<Longrightarrow> c + int (length pre) < T \<Longrightarrow>
   \<forall>x \<in> set pre. b_stall x = 1 \<Longrightarrow> b_stall j \<noteq> 1 \<Longrightarrow>
   \<forall>x \<in> set (pre @ [j]). unambiguous m x \<Longrightarrow>
   \<exists>m'. stall_loop c m (pre @ j # rest) = (Done (c + int (length pre) + 1), m', rest) \<and>
        edges_only m m'"
proof (induction pre arbitrary: c m)
  case Nil
  then obtain m1 where e: "edge j m = Inr m1" using unambiguous_edge [of m j] by auto
  note k = edge_keeps(1) [OF e]
  then have "timeout m1 = Some T" using Nil.prems(2) by (simp add: edges_only_def same_drive_def)
  then have n: "\<not> timed_out m1 (c + 1)" using Nil.prems(3) by (simp add: timed_out_def)
  have s: "b_stall (ins m1) \<noteq> 1" using edge_keeps(2) [OF e] Nil.prems(5) by simp
  have "stall_loop (c + 1) m1 rest = (Done (c + 1), m1, rest)"
    using s by (cases rest) simp_all
  then show ?case using Nil.prems(1) e k n by simp
next
  case (Cons x pre)
  then obtain m1 where e: "edge x m = Inr m1" using unambiguous_edge [of m x] by auto
  note k = edge_keeps(1) [OF e]
  then have t: "timeout m1 = Some T"
    using Cons.prems(2) by (simp add: edges_only_def same_drive_def)
  then have n: "\<not> timed_out m1 (c + 1)" using Cons.prems(3) by (simp add: timed_out_def)
  have s: "b_stall (ins m1) = 1" using edge_keeps(2) [OF e] Cons.prems(4) by simp
  have u: "\<forall>y \<in> set (pre @ [j]). unambiguous m1 y"
    using Cons.prems(6) unambiguous_edges_only [OF k] by simp
  have "\<exists>m'. stall_loop (c + 1) m1 (pre @ j # rest) =
      (Done (c + 1 + int (length pre) + 1), m', rest) \<and> edges_only m1 m'"
    using s t _ _ Cons.prems(5) u by (rule Cons.IH) (use Cons.prems in auto)
  then show ?case using Cons.prems(1) e n k by (auto intro: edges_only_trans)
qed

lemma wait_stall_counts:
  assumes "has_stall m" and "timeout m = Some T" and "\<forall>x \<in> set tr. unambiguous m x"
  shows
    "(b_stall (ins m) \<noteq> 1 \<longrightarrow> wait_stall m tr = (Done 0, m, tr)) \<and>
     (b_stall (ins m) = 1 \<and> tr = pre @ j # rest \<and> (\<forall>x \<in> set pre. b_stall x = 1) \<and>
      b_stall j \<noteq> 1 \<and> int (length pre) < T \<longrightarrow>
        (\<exists>m'. wait_stall m tr = (Done (int (length pre) + 1), m', rest) \<and>
              writes m' = writes m)) \<and>
     (b_stall (ins m) = 1 \<and> tr = pre @ j # rest \<and> (\<forall>x \<in> set pre. b_stall x = 1) \<and>
      int (length pre) = T \<longrightarrow>
        (\<exists>m'. wait_stall m tr = (Fail (TestFailure (StallTimeout T)), m', rest) \<and>
              writes m' = writes m))"
proof (intro conjI impI)
  assume "b_stall (ins m) \<noteq> 1"
  then show "wait_stall m tr = (Done 0, m, tr)"
    using assms(1) by (cases tr) (simp_all add: wait_stall_def)
next
  assume a: "b_stall (ins m) = 1 \<and> tr = pre @ j # rest \<and> (\<forall>x \<in> set pre. b_stall x = 1) \<and>
      b_stall j \<noteq> 1 \<and> int (length pre) < T"
  then have s: "b_stall (ins m) = 1" and tr: "tr = pre @ j # rest"
    and hi: "\<forall>x \<in> set pre. b_stall x = 1" and lo: "b_stall j \<noteq> 1"
    and n: "0 + int (length pre) < T"
    by simp_all
  have u: "\<forall>x \<in> set (pre @ [j]). unambiguous m x" using assms(3) tr by simp
  have "\<exists>m'. stall_loop 0 m (pre @ j # rest) = (Done (0 + int (length pre) + 1), m', rest) \<and>
        edges_only m m'"
    using s assms(2) n hi lo u by (rule stall_loop_released)
  then show "\<exists>m'. wait_stall m tr = (Done (int (length pre) + 1), m', rest) \<and>
              writes m' = writes m"
    using tr assms(1) by (auto simp: wait_stall_def edges_only_def same_drive_def)
next
  assume a: "b_stall (ins m) = 1 \<and> tr = pre @ j # rest \<and> (\<forall>x \<in> set pre. b_stall x = 1) \<and>
      int (length pre) = T"
  then have s: "b_stall (ins m) = 1" and tr: "tr = pre @ j # rest"
    and hi: "\<forall>x \<in> set pre. b_stall x = 1" and n: "0 + int (length pre) = T"
    by simp_all
  have u: "\<forall>x \<in> set (pre @ [j]). unambiguous m x" using assms(3) tr by simp
  have "\<exists>m'. stall_loop 0 m (pre @ j # rest) = (Fail (TestFailure (StallTimeout T)), m', rest) \<and>
        edges_only m m'"
    using s assms(2) n hi u by (rule stall_loop_times_out)
  then show "\<exists>m'. wait_stall m tr = (Fail (TestFailure (StallTimeout T)), m', rest) \<and>
              writes m' = writes m"
    using tr assms(1) by (auto simp: wait_stall_def edges_only_def same_drive_def)
qed

subsection \<open>What driving keeps\<close>

lemma bndE:
  assumes "bnd r f = (q, m', tr')"
  obtains (Done) x m1 tr1 where "r = (Done x, m1, tr1)" and "f x m1 tr1 = (q, m', tr')"
    | (Fail) e where "r = (Fail e, m', tr')" and "q = Fail e"
    | (Pending) "r = (Pending, m', tr')" and "q = Pending"
proof -
  obtain o1 m1 tr1 where r: "r = (o1, m1, tr1)" by (cases r) auto
  show ?thesis
    using assms r Done Fail Pending by (cases o1) (auto simp: bnd_def)
qed

lemma cycle_on_refl [simp]: "cycle_on m m"
  by (simp add: cycle_on_def)

lemma cycle_on_trans: "cycle_on a b \<Longrightarrow> cycle_on b c \<Longrightarrow> cycle_on a c"
  by (auto simp: cycle_on_def)

lemma edges_only_cycle_on: "edges_only m m' \<Longrightarrow> cycle_on m m'"
  by (simp add: edges_only_def same_drive_def cycle_on_def)

lemma cycle_on_drive_sig [simp]: "cycle_on m (drive_sig s v m)"
  by (simp add: cycle_on_def drive_sig_def counted_def)

lemma cycle_on_aux [simp]: "cycle_on m (m\<lparr>aux_buf := a\<rparr>)"
  by (simp add: cycle_on_def counted_def)

lemma cycle_on_drive_outputs [simp]: "cycle_on m (drive_outputs we adr datwr sel m)"
  by (simp add: cycle_on_def drive_outputs_def drive_sig_def counted_def)

lemma aux_buf_drive_outputs [simp]:
  "aux_buf (drive_outputs we adr datwr sel m) = aux_buf m"
  by (simp add: drive_outputs_def drive_sig_def)

lemma aux_buf_drive_sig [simp]: "aux_buf (drive_sig s v m) = aux_buf m"
  by (simp add: drive_sig_def)

lemma edges_only_aux: "edges_only m m' \<Longrightarrow> aux_buf m' = aux_buf m"
  by (simp add: edges_only_def same_drive_def)

lemma insert_idle_keeps: "insert_idle idle m tr = (r, m', tr') \<Longrightarrow> edges_only m m'"
  by (cases idle) (auto simp: insert_idle_def dest: idle_loop_keeps)

lemma wait_stall_keeps: "wait_stall m tr = (r, m', tr') \<Longrightarrow> edges_only m m'"
  by (auto simp: wait_stall_def dest: stall_loop_keeps split: if_splits)

lemma wait_ack_keeps: "wait_ack m tr = (r, m', tr') \<Longrightarrow> edges_only m m'"
  by (auto simp: wait_ack_def dest: ack_loop_keeps split: if_splits)

text \<open>
  \<open>_drive\<close> inside a cycle: whatever its outcome the cycle stays on, and when it returns
  it has recorded one auxiliary entry with the values it was given.
\<close>

lemma drive_in_cycle:
  assumes d: "drive we adr datwr sel idle m tr = (r, m', tr')" and b: "busy m"
  shows "cycle_on m m'"
    and "r = Done () \<Longrightarrow>
         \<exists>a. aux_buf m' = aux_buf m @ [a] \<and> aux_sel a = sel \<and> aux_adr a = adr \<and>
             aux_datwr a = datwr \<and> aux_waitIdle a = idle"
proof -
  let ?P = "cycle_on m m' \<and> (r = Done () \<longrightarrow>
         (\<exists>a. aux_buf m' = aux_buf m @ [a] \<and> aux_sel a = sel \<and> aux_adr a = adr \<and>
             aux_datwr a = datwr \<and> aux_waitIdle a = idle))"
  from d b have d1: "bnd (insert_idle idle m tr) (\<lambda>_ m1 tr1.
       bnd (clock_event (drive_outputs we adr datwr sel m1) tr1) (\<lambda>_ m2 tr2.
       bnd (wait_stall m2 tr2) (\<lambda>stalled m3 tr3.
       bnd (wait_ack
              (m3\<lparr>aux_buf := aux_buf m3 @
                     [\<lparr>aux_sel = sel, aux_adr = adr, aux_datwr = datwr,
                       aux_waitIdle = idle, aux_waitStall = stalled,
                       aux_ts = clk_cycle_count m3\<rparr>]\<rparr>) tr3) (\<lambda>_ m4 tr4.
       (Done (), drive_sig We 0 (drive_sig Stb 0 m4), tr4))))) = (r, m', tr')"
    by (simp add: drive_def)
  from d1 have ?P
  proof (cases rule: bndE)
    case (Fail e)
    then show ?thesis using insert_idle_keeps edges_only_cycle_on by blast
  next
    case Pending
    then show ?thesis using insert_idle_keeps edges_only_cycle_on by blast
  next
    case (Done u1 m1 tr1)
    have k1: "edges_only m m1" using Done(1) by (rule insert_idle_keeps)
    from Done(2) show ?thesis
    proof (cases rule: bndE)
      case (Fail e)
      from Fail(1) have "edges_only (drive_outputs we adr datwr sel m1) m'"
        by (rule clock_event_keeps)
      then have "cycle_on m1 m'"
        using cycle_on_drive_outputs edges_only_cycle_on cycle_on_trans by blast
      then show ?thesis
        using k1 Fail(2) edges_only_cycle_on cycle_on_trans by blast
    next
      case Pending
      from Pending(1) have "edges_only (drive_outputs we adr datwr sel m1) m'"
        by (rule clock_event_keeps)
      then have "cycle_on m1 m'"
        using cycle_on_drive_outputs edges_only_cycle_on cycle_on_trans by blast
      then show ?thesis
        using k1 Pending(2) edges_only_cycle_on cycle_on_trans by blast
    next
      case (Done u2 m2 tr2)
      have e2: "edges_only (drive_outputs we adr datwr sel m1) m2"
        using Done(1) by (rule clock_event_keeps)
      then have "cycle_on m1 m2"
        using cycle_on_drive_outputs edges_only_cycle_on cycle_on_trans by blast
      then have c2: "cycle_on m m2"
        using k1 edges_only_cycle_on cycle_on_trans by blast
      have a2: "aux_buf m2 = aux_buf m"
        using edges_only_aux [OF e2] edges_only_aux [OF k1] by simp
      from Done(2) show ?thesis
      proof (cases rule: bndE)
        case (Fail e)
        then show ?thesis
          using c2 wait_stall_keeps edges_only_cycle_on cycle_on_trans by blast
      next
        case Pending
        then show ?thesis
          using c2 wait_stall_keeps edges_only_cycle_on cycle_on_trans by blast
      next
        case (Done stalled m3 tr3)
        have e3: "edges_only m2 m3" using Done(1) by (rule wait_stall_keeps)
        then have c3: "cycle_on m m3"
          using c2 edges_only_cycle_on cycle_on_trans by blast
        have a3: "aux_buf m3 = aux_buf m" using edges_only_aux [OF e3] a2 by simp
        define a where "a = \<lparr>aux_sel = sel, aux_adr = adr, aux_datwr = datwr,
                       aux_waitIdle = idle, aux_waitStall = stalled,
                       aux_ts = clk_cycle_count m3\<rparr>"
        define m3' where "m3' = m3\<lparr>aux_buf := aux_buf m3 @ [a]\<rparr>"
        have c3': "cycle_on m m3'"
          using c3 cycle_on_aux [of m3] cycle_on_trans unfolding m3'_def by blast
        from Done(2) have "bnd (wait_ack m3' tr3) (\<lambda>_ m4 tr4.
            (Done (), drive_sig We 0 (drive_sig Stb 0 m4), tr4)) = (r, m', tr')"
          by (simp add: m3'_def a_def)
        then show ?thesis
        proof (cases rule: bndE)
          case (Fail e)
          then show ?thesis
            using c3' wait_ack_keeps edges_only_cycle_on cycle_on_trans by blast
        next
          case Pending
          then show ?thesis
            using c3' wait_ack_keeps edges_only_cycle_on cycle_on_trans by blast
        next
          case (Done u4 m4 tr4)
          have e4: "edges_only m3' m4" using Done(1) by (rule wait_ack_keeps)
          then have c4: "cycle_on m m4"
            using c3' edges_only_cycle_on cycle_on_trans by blast
          have m': "m' = drive_sig We 0 (drive_sig Stb 0 m4)" using Done(2) by simp
          have "cycle_on m4 m'"
            unfolding m' using cycle_on_drive_sig cycle_on_trans by blast
          then have "cycle_on m m'" using c4 cycle_on_trans by blast
          moreover have "aux_buf m' = aux_buf m @ [a]"
            using edges_only_aux [OF e4] a3 by (simp add: m' m3'_def)
          moreover have "aux_sel a = sel \<and> aux_adr a = adr \<and> aux_datwr a = datwr \<and>
              aux_waitIdle a = idle"
            by (simp add: a_def)
          ultimately show ?thesis by blast
        qed
      qed
    qed
  qed
  then show "cycle_on m m'"
    and "r = Done () \<Longrightarrow>
         \<exists>a. aux_buf m' = aux_buf m @ [a] \<and> aux_sel a = sel \<and> aux_adr a = adr \<and>
             aux_datwr a = datwr \<and> aux_waitIdle a = idle"
    by simp_all
qed

lemma drive_ops_in_cycle:
  "drive_ops xs m tr = (r, m', tr') \<Longrightarrow> busy m \<Longrightarrow>
   cycle_on m m' \<and>
   (r = Done () \<longrightarrow> (\<exists>axs. aux_buf m' = aux_buf m @ axs \<and> list_all2 recorded axs xs))"
proof (induction xs arbitrary: m tr)
  case Nil
  then show ?case by auto
next
  case (Cons x xs)
  show ?case
  proof (cases x)
    case Other
    then show ?thesis using Cons.prems by auto
  next
    case (Op op)
    define we :: int where "we = (if op_dat op \<noteq> None then 1 else 0)"
    define dat where "dat = (case op_dat op of Some d \<Rightarrow> d | None \<Rightarrow> 0)"
    from Cons.prems(1) Op have
      "bnd (drive we (op_adr op) dat (op_sel op) (op_idle op) m tr) (\<lambda>_ m1 tr1.
          if op_idle op = None then (Fail TypeError, m1, tr1)
          else drive_ops xs m1 tr1) = (r, m', tr')"
      by (simp add: we_def dat_def Let_def)
    then show ?thesis
    proof (cases rule: bndE)
      case (Fail e)
      then show ?thesis using drive_in_cycle(1) Cons.prems(2) by blast
    next
      case Pending
      then show ?thesis using drive_in_cycle(1) Cons.prems(2) by blast
    next
      case (Done u m1 tr1)
      have c1: "cycle_on m m1" using Done(1) Cons.prems(2) by (rule drive_in_cycle(1))
      then have b1: "busy m1" using Cons.prems(2) by (simp add: cycle_on_def)
      obtain a where a: "aux_buf m1 = aux_buf m @ [a]" "aux_sel a = op_sel op"
        "aux_adr a = op_adr op" "aux_datwr a = dat" "aux_waitIdle a = op_idle op"
        using drive_in_cycle(2) [OF Done(1) Cons.prems(2)] by auto
      show ?thesis
      proof (cases "op_idle op = None")
        case True
        then show ?thesis using Done(2) c1 by auto
      next
        case False
        then have "drive_ops xs m1 tr1 = (r, m', tr')"
          using Done(2) by (cases "op_idle op") auto
        then have ih: "cycle_on m1 m' \<and>
          (r = Done () \<longrightarrow> (\<exists>axs. aux_buf m' = aux_buf m1 @ axs \<and> list_all2 recorded axs xs))"
          using b1 by (rule Cons.IH)
        have "cycle_on m m'" using c1 ih cycle_on_trans by blast
        moreover have "\<exists>axs. aux_buf m' = aux_buf m @ axs \<and> list_all2 recorded axs (x # xs)"
          if "r = Done ()"
        proof -
          from ih that obtain axs where
            "aux_buf m' = aux_buf m1 @ axs" "list_all2 recorded axs xs" by auto
          then have "aux_buf m' = aux_buf m @ (a # axs)"
            and "list_all2 recorded (a # axs) (x # xs)"
            using a Op by (simp_all add: dat_def)
          then show ?thesis by blast
        qed
        ultimately show ?thesis by blast
      qed
    qed
  qed
qed

subsection \<open>Strobe held through a stall\<close>

lemma writes_drive_outputs:
  "writes (drive_outputs we adr datwr sel m) = writes m @ strobe_writes we adr datwr sel"
  by (simp add: drive_outputs_def drive_sig_def strobe_writes_def)

lemma edges_only_writes: "edges_only m m' \<Longrightarrow> writes m' = writes m"
  by (simp add: edges_only_def same_drive_def)

lemma unambiguous_cycle_on: "cycle_on m m' \<Longrightarrow> unambiguous m' j = unambiguous m j"
  by (rule unambiguous_same) (simp_all add: cycle_on_def)

lemma idle_loop_done:
  "length idles = nat k \<Longrightarrow> \<forall>x \<in> set idles. unambiguous m x \<Longrightarrow>
   \<exists>m1. idle_loop k m (idles @ tr) = (Done (), m1, tr) \<and> edges_only m m1"
proof (induction idles arbitrary: k m)
  case Nil
  then have "\<not> 0 < k" by simp
  then show ?case by (cases tr) simp_all
next
  case (Cons x idles)
  then have k: "0 < k" and n: "length idles = nat (k - 1)" by simp_all
  obtain m1 where e: "edge x m = Inr m1" using unambiguous_edge [of m x] Cons.prems(2) by auto
  note k1 = edge_keeps(1) [OF e]
  have "\<forall>y \<in> set idles. unambiguous m1 y"
    using Cons.prems(2) unambiguous_edges_only [OF k1] by simp
  with n have "\<exists>m2. idle_loop (k - 1) m1 (idles @ tr) = (Done (), m2, tr) \<and> edges_only m1 m2"
    by (rule Cons.IH)
  then show ?case using k e k1 by (auto intro: edges_only_trans)
qed

lemma insert_idle_done:
  "length idles = (case idle of None \<Rightarrow> 0 | Some k \<Rightarrow> nat k) \<Longrightarrow>
   \<forall>x \<in> set idles. unambiguous m x \<Longrightarrow>
   \<exists>m1. insert_idle idle m (idles @ tr) = (Done (), m1, tr) \<and> edges_only m m1"
  by (cases idle) (auto simp: insert_idle_def intro: idle_loop_done)

text \<open>
  \<open>_drive\<close> up to its stall wait: the idle cycles, the five assignments, and the edge
  at which the slave first sees strobe.
\<close>

lemma drive_strobe_edge:
  assumes "length idles = (case idle of None \<Rightarrow> 0 | Some k \<Rightarrow> nat k)"
    and "\<forall>x \<in> set (idles @ [s]). unambiguous m x"
  obtains m1 m2 where "insert_idle idle m (idles @ s # rest) = (Done (), m1, s # rest)"
    and "clock_event (drive_outputs we adr datwr sel m1) (s # rest) = (Done (), m2, rest)"
    and "cycle_on m m2" and "ins m2 = s" and "aux_buf m2 = aux_buf m"
    and "writes m2 = writes m @ strobe_writes we adr datwr sel"
proof -
  from assms obtain m1 where i: "insert_idle idle m (idles @ s # rest) = (Done (), m1, s # rest)"
    and k1: "edges_only m m1"
    using insert_idle_done [of idles idle m "s # rest"] by auto
  let ?m = "drive_outputs we adr datwr sel m1"
  have c1: "cycle_on m ?m"
    using k1 cycle_on_drive_outputs edges_only_cycle_on cycle_on_trans by blast
  have "unambiguous ?m s" using assms(2) unambiguous_cycle_on [OF c1] by simp
  then obtain m2 where e: "edge s ?m = Inr m2" using unambiguous_edge by blast
  note k2 = edge_keeps [OF e]
  have "clock_event ?m (s # rest) = (Done (), m2, rest)" using e by simp
  moreover have "cycle_on m m2" using c1 k2(1) edges_only_cycle_on cycle_on_trans by blast
  moreover have "aux_buf m2 = aux_buf m"
    using edges_only_aux [OF k2(1)] edges_only_aux [OF k1] by simp
  moreover have "writes m2 = writes m @ strobe_writes we adr datwr sel"
    using edges_only_writes [OF k2(1)] edges_only_writes [OF k1]
    by (simp add: writes_drive_outputs)
  ultimately show ?thesis using that i k2(2) by blast
qed

text \<open>
  Claim C5. In pipelined mode (the bus has a stall line) with a timeout \<open>T\<close>, \<open>_drive\<close>
  asserts strobe with the operation's lines and then waits one clock edge at a time while
  stall is high, counting the stalled cycles, with strobe still asserted: no output line is
  assigned between the assertion and the end of the wait. With stall low at the strobe edge
  no cycle is counted; released after at most \<open>T\<close> stalled cycles the operation is
  recorded with their number and strobe is lowered; and when stall is high at \<open>T + 1\<close>
  samples in a row the timeout failure is raised on the edge that ends the \<open>(T + 1)\<close>-th
  stalled cycle, strobe being asserted to the last. The samples are the idle cycles, the
  strobe edge \<open>s\<close> and the edges after it, and the replies on them are unambiguous.
\<close>

theorem drive_stall_timeout:
  assumes "busy m" and "has_stall m" and "timeout m = Some T"
    and "length idles = (case idle of None \<Rightarrow> 0 | Some k \<Rightarrow> nat k)"
    and "\<forall>x \<in> set (idles @ s # rest). unambiguous m x"
  shows
    "(b_stall s \<noteq> 1 \<longrightarrow>
        (\<exists>m' a. drive we adr datwr sel idle m (idles @ s # rest) = (Done (), m', rest) \<and>
           writes m' = writes m @ strobe_writes we adr datwr sel @ [(Stb, 0), (We, 0)] \<and>
           aux_buf m' = aux_buf m @ [a] \<and> aux_waitStall a = 0)) \<and>
     (b_stall s = 1 \<and> rest = pre @ j # rest' \<and> (\<forall>x \<in> set pre. b_stall x = 1) \<and>
      b_stall j \<noteq> 1 \<and> int (length pre) < T \<longrightarrow>
        (\<exists>m' a. drive we adr datwr sel idle m (idles @ s # rest) = (Done (), m', rest') \<and>
           writes m' = writes m @ strobe_writes we adr datwr sel @ [(Stb, 0), (We, 0)] \<and>
           aux_buf m' = aux_buf m @ [a] \<and> aux_waitStall a = int (length pre) + 1)) \<and>
     (b_stall s = 1 \<and> rest = pre @ j # rest' \<and> (\<forall>x \<in> set pre. b_stall x = 1) \<and>
      int (length pre) = T \<longrightarrow>
        (\<exists>m'. drive we adr datwr sel idle m (idles @ s # rest) =
                (Fail (TestFailure (StallTimeout T)), m', rest') \<and>
           writes m' = writes m @ strobe_writes we adr datwr sel \<and>
           aux_buf m' = aux_buf m))"
proof -
  have u0: "\<forall>x \<in> set (idles @ [s]). unambiguous m x" using assms(5) by simp
  obtain m1 m2 where i: "insert_idle idle m (idles @ s # rest) = (Done (), m1, s # rest)"
    and c: "clock_event (drive_outputs we adr datwr sel m1) (s # rest) = (Done (), m2, rest)"
    and c2: "cycle_on m m2" and s2: "ins m2 = s" and a2: "aux_buf m2 = aux_buf m"
    and w2: "writes m2 = writes m @ strobe_writes we adr datwr sel"
    using assms(4) u0 by (rule drive_strobe_edge)
  have h2: "has_stall m2" "timeout m2 = Some T"
    using c2 assms(2,3) by (simp_all add: cycle_on_def)
  have u2: "\<forall>x \<in> set rest. unambiguous m2 x"
    using assms(5) unambiguous_cycle_on [OF c2] by simp
  note ws = wait_stall_counts [OF h2 u2]
  have d: "drive we adr datwr sel idle m (idles @ s # rest) =
      bnd (wait_stall m2 rest) (\<lambda>stalled m3 tr3.
       bnd (wait_ack
              (m3\<lparr>aux_buf := aux_buf m3 @
                     [\<lparr>aux_sel = sel, aux_adr = adr, aux_datwr = datwr,
                       aux_waitIdle = idle, aux_waitStall = stalled,
                       aux_ts = clk_cycle_count m3\<rparr>]\<rparr>) tr3) (\<lambda>_ m4 tr4.
       (Done (), drive_sig We 0 (drive_sig Stb 0 m4), tr4)))"
    using assms(1) i c by (simp add: drive_def bnd_def)
  have fin: "\<exists>m' a. drive we adr datwr sel idle m (idles @ s # rest) = (Done (), m', tr3) \<and>
           writes m' = writes m @ strobe_writes we adr datwr sel @ [(Stb, 0), (We, 0)] \<and>
           aux_buf m' = aux_buf m @ [a] \<and> aux_waitStall a = n"
    if w: "wait_stall m2 rest = (Done n, m3, tr3)" for n m3 tr3
  proof -
    have k3: "edges_only m2 m3" using w by (rule wait_stall_keeps)
    then have h3: "has_stall m3" using h2(1) by (simp add: edges_only_def same_drive_def)
    let ?a = "\<lparr>aux_sel = sel, aux_adr = adr, aux_datwr = datwr,
                       aux_waitIdle = idle, aux_waitStall = n,
                       aux_ts = clk_cycle_count m3\<rparr>"
    let ?m' = "drive_sig We 0 (drive_sig Stb 0 (m3\<lparr>aux_buf := aux_buf m3 @ [?a]\<rparr>))"
    have "drive we adr datwr sel idle m (idles @ s # rest) = (Done (), ?m', tr3)"
      using w h3 by (simp add: d bnd_def wait_ack_def)
    moreover have "writes ?m' = writes m @ strobe_writes we adr datwr sel @ [(Stb, 0), (We, 0)]"
      using edges_only_writes [OF k3] w2 by (simp add: drive_sig_def)
    moreover have "aux_buf ?m' = aux_buf m @ [?a]"
      using edges_only_aux [OF k3] a2 by (simp add: drive_sig_def)
    moreover have "aux_waitStall ?a = n" by simp
    ultimately show ?thesis by blast
  qed
  show ?thesis
  proof (intro conjI impI)
    assume "b_stall s \<noteq> 1"
    then have "wait_stall m2 rest = (Done 0, m2, rest)" using ws s2 by simp
    then show "\<exists>m' a. drive we adr datwr sel idle m (idles @ s # rest) = (Done (), m', rest) \<and>
           writes m' = writes m @ strobe_writes we adr datwr sel @ [(Stb, 0), (We, 0)] \<and>
           aux_buf m' = aux_buf m @ [a] \<and> aux_waitStall a = 0"
      by (rule fin)
  next
    assume a: "b_stall s = 1 \<and> rest = pre @ j # rest' \<and> (\<forall>x \<in> set pre. b_stall x = 1) \<and>
      b_stall j \<noteq> 1 \<and> int (length pre) < T"
    then have "\<exists>m3. wait_stall m2 rest = (Done (int (length pre) + 1), m3, rest') \<and>
        writes m3 = writes m2"
      using ws [of pre j rest'] s2 by blast
    then obtain m3 where "wait_stall m2 rest = (Done (int (length pre) + 1), m3, rest')"
      by blast
    then show "\<exists>m' a. drive we adr datwr sel idle m (idles @ s # rest) = (Done (), m', rest') \<and>
           writes m' = writes m @ strobe_writes we adr datwr sel @ [(Stb, 0), (We, 0)] \<and>
           aux_buf m' = aux_buf m @ [a] \<and> aux_waitStall a = int (length pre) + 1"
      by (rule fin)
  next
    assume a: "b_stall s = 1 \<and> rest = pre @ j # rest' \<and> (\<forall>x \<in> set pre. b_stall x = 1) \<and>
      int (length pre) = T"
    then have "\<exists>m3. wait_stall m2 rest = (Fail (TestFailure (StallTimeout T)), m3, rest') \<and>
        writes m3 = writes m2"
      using ws [of pre j rest'] s2 by blast
    then obtain m3 where w: "wait_stall m2 rest = (Fail (TestFailure (StallTimeout T)), m3, rest')"
      by blast
    have k3: "edges_only m2 m3" using w by (rule wait_stall_keeps)
    have "drive we adr datwr sel idle m (idles @ s # rest) =
        (Fail (TestFailure (StallTimeout T)), m3, rest')"
      using w by (simp add: d bnd_def)
    moreover have "writes m3 = writes m @ strobe_writes we adr datwr sel"
      using edges_only_writes [OF k3] w2 by simp
    moreover have "aux_buf m3 = aux_buf m"
      using edges_only_aux [OF k3] a2 by simp
    ultimately show "\<exists>m'. drive we adr datwr sel idle m (idles @ s # rest) =
                (Fail (TestFailure (StallTimeout T)), m', rest') \<and>
           writes m' = writes m @ strobe_writes we adr datwr sel \<and>
           aux_buf m' = aux_buf m"
      by blast
  qed
qed

theorem drive_stall_timeout_witness:
  "open_cycle (pipelined 5) [] = (Done (), cycle_open 5, []) \<and>
   fst (drive 1 16 170 15 (Some 0) (cycle_open 5)
          [stalling, stalling, stalling, stalling, stalling, stalling, quiet]) =
     Fail (TestFailure (StallTimeout 5)) \<and>
   writes (fst (snd (drive 1 16 170 15 (Some 0) (cycle_open 5)
          [stalling, stalling, stalling, stalling, stalling, stalling, quiet]))) =
     writes (cycle_open 5) @ [(Stb, 1), (Adr, 16), (Sel, 15), (Datwr, 170), (We, 1)] \<and>
   snd (snd (drive 1 16 170 15 (Some 0) (cycle_open 5)
          [stalling, stalling, stalling, stalling, stalling, stalling, quiet])) = [] \<and>
   fst (drive 1 16 170 15 (Some 0) (cycle_open 5)
          [stalling, stalling, stalling, stalling, stalling, quiet]) = Done () \<and>
   writes (fst (snd (drive 1 16 170 15 (Some 0) (cycle_open 5)
          [stalling, stalling, stalling, stalling, stalling, quiet]))) =
     writes (cycle_open 5) @
       [(Stb, 1), (Adr, 16), (Sel, 15), (Datwr, 170), (We, 1), (Stb, 0), (We, 0)] \<and>
   map aux_waitStall (aux_buf (fst (snd (drive 1 16 170 15 (Some 0) (cycle_open 5)
          [stalling, stalling, stalling, stalling, stalling, quiet])))) = [5]"
proof -
  have o: "open_cycle (pipelined 5) [] = (Done (), cycle_open 5, [])"
    by (simp add: open_cycle_def open_body_def read_body_def get_reply_def reply_err_def
        reply_rty_def drive_sig_def cycle_open_def pipelined_def WishboneMaster_def quiet_def
        Let_def)
  have h: "busy (cycle_open 5)" "has_stall (cycle_open 5)" "timeout (cycle_open 5) = Some 5"
    "aux_buf (cycle_open 5) = []"
    by (simp_all add: cycle_open_def pipelined_def WishboneMaster_def)
  have i: "length ([] :: bus_in list) = (case Some (0 :: int) of None \<Rightarrow> 0 | Some k \<Rightarrow> nat k)"
    by simp
  have u: "unambiguous m stalling" "unambiguous m quiet" for m
    by (simp_all add: unambiguous_def get_reply_def reply_err_def reply_rty_def stalling_def
        quiet_def)
  have s: "b_stall stalling = 1" "b_stall quiet \<noteq> 1"
    by (simp_all add: stalling_def quiet_def)
  have u1: "\<forall>x \<in> set ([] @ stalling #
      [stalling, stalling, stalling, stalling, stalling, quiet]). unambiguous (cycle_open 5) x"
    and u2: "\<forall>x \<in> set ([] @ stalling #
      [stalling, stalling, stalling, stalling, quiet]). unambiguous (cycle_open 5) x"
    by (simp_all add: u)
  show ?thesis
    using o
      drive_stall_timeout [OF h(1,2,3) i u1, where pre = "[stalling, stalling, stalling,
        stalling, stalling]" and j = quiet and rest' = "[]" and we = 1 and adr = 16
        and datwr = 170 and sel = 15]
      drive_stall_timeout [OF h(1,2,3) i u2, where pre = "[stalling, stalling, stalling,
        stalling]" and j = quiet and rest' = "[]" and we = 1 and adr = 16
        and datwr = 170 and sel = 15]
    by (auto simp: s h(4) strobe_writes_def)
qed

subsection \<open>Opening and closing\<close>

lemma open_body_Done:
  assumes "open_body m tr = (r, m', tr')"
  shows "prefix (writes m) (writes m')" and "op_cnt m' = op_cnt m"
    and "r = Done () \<Longrightarrow> busy m' \<and> aux_buf m' = [] \<and> res_buf m' = [] \<and> counted m' \<and>
          writes m' = writes m @ [(Cyc, 1)]"
  using assms
  by (auto simp: open_body_def Let_def drive_sig_def counted_def read_body_def
      split: sum.splits prod.splits if_splits)

lemma open_cycle_Done:
  assumes "open_cycle m tr = (r, m', tr')"
  shows "prefix (writes m) (writes m')" and "op_cnt m' = op_cnt m"
    and "r = Done () \<Longrightarrow> busy m' \<and> aux_buf m' = [] \<and> res_buf m' = [] \<and> counted m' \<and>
          writes m' = writes m @ [(Cyc, 1)]"
proof -
  let ?m = "m\<lparr>log := log m @ [AlreadyBusy]\<rparr>"
  consider (body) "open_body m tr = (r, m', tr')"
    | (body') "open_body ?m tr = (r, m', tr')"
    | (wait) "wait_forever ?m tr = (r, m', tr')"
    using assms by (auto simp: open_cycle_def Let_def split: if_splits)
  then have "prefix (writes m) (writes m') \<and> op_cnt m' = op_cnt m \<and>
      (r = Done () \<longrightarrow> busy m' \<and> aux_buf m' = [] \<and> res_buf m' = [] \<and> counted m' \<and>
          writes m' = writes m @ [(Cyc, 1)])"
  proof cases
    case body
    then show ?thesis using open_body_Done [OF body] by blast
  next
    case body'
    then show ?thesis using open_body_Done [OF body'] by auto
  next
    case wait
    have "edges_only ?m m'" using wait by (rule wait_forever_keeps)
    then show ?thesis
      using wait wait_forever_not_Done [of ?m tr] by (auto simp: edges_only_def same_drive_def)
  qed
  then show "prefix (writes m) (writes m')" and "op_cnt m' = op_cnt m"
    and "r = Done () \<Longrightarrow> busy m' \<and> aux_buf m' = [] \<and> res_buf m' = [] \<and> counted m' \<and>
          writes m' = writes m @ [(Cyc, 1)]"
    by simp_all
qed

lemma edge_not_busy:
  "\<not> busy m \<Longrightarrow> edge j m = Inr (count_resume (m\<lparr>ins := j, read_task := False\<rparr>))"
  by (auto simp: edge_def read_resume_def count_resume_def Let_def)

lemma close_cycle_Done:
  assumes c: "close_cycle m tr = (Done u, m', tr')" and n: "counted m"
  shows "aux_buf m' = aux_buf m" and "op_cnt m \<le> int (length (res_buf m'))"
proof -
  from c have "bnd (close_loop 0 m tr)
      (\<lambda>_ m1 tr1. clock_event (drive_sig Cyc 0 (m1\<lparr>busy := False, busy_event := True\<rparr>)) tr1)
      = (Done u, m', tr')"
    by (simp add: close_cycle_def)
  then obtain u1 m1 tr1 where l: "close_loop 0 m tr = (Done u1, m1, tr1)"
    and e: "clock_event (drive_sig Cyc 0 (m1\<lparr>busy := False, busy_event := True\<rparr>)) tr1 =
      (Done u, m', tr')"
    by (cases rule: bndE) auto
  have k: "edges_only m m1" and a: "\<not> acked_ops m1 < op_cnt m1"
    using close_loop_keeps [OF l] by simp_all
  have n1: "counted m1" using k n by (simp add: edges_only_def)
  let ?m2 = "drive_sig Cyc 0 (m1\<lparr>busy := False, busy_event := True\<rparr>)"
  have nb: "\<not> busy ?m2" by (simp add: drive_sig_def)
  from e obtain j js where tr1: "tr1 = j # js" by (cases tr1) auto
  have m': "m' = count_resume (?m2\<lparr>ins := j, read_task := False\<rparr>)"
    using e tr1 edge_not_busy [OF nb, of j] by simp
  have r: "res_buf m' = res_buf m1" and ax: "aux_buf m' = aux_buf m1"
    unfolding m' by (simp_all add: count_resume_def Let_def drive_sig_def)
  show "aux_buf m' = aux_buf m" using ax k by (simp add: edges_only_def same_drive_def)
  have "op_cnt m1 = op_cnt m" using k by (simp add: edges_only_def same_drive_def)
  then show "op_cnt m \<le> int (length (res_buf m'))"
    using a n1 r by (simp add: counted_def)
qed

text \<open>A completed cycle: one auxiliary entry per item, in order, and at least as many replies.\<close>

lemma run_cycle_Done:
  assumes r: "run_cycle xs m tr = (Done u, mc, tr')" and n: "op_cnt m = int (length xs)"
  shows "list_all2 recorded (aux_buf mc) xs" and "length xs \<le> length (res_buf mc)"
proof -
  from r have "bnd (open_cycle m tr) (\<lambda>_ m1 tr1.
    bnd (drive_ops xs m1 tr1) (\<lambda>_ m2 tr2. close_cycle m2 tr2)) = (Done u, mc, tr')"
    by (simp add: run_cycle_def)
  then obtain u1 m1 tr1 where o: "open_cycle m tr = (Done u1, m1, tr1)"
    and r1: "bnd (drive_ops xs m1 tr1) (\<lambda>_ m2 tr2. close_cycle m2 tr2) = (Done u, mc, tr')"
    by (cases rule: bndE) auto
  from r1 obtain u2 m2 tr2 where d: "drive_ops xs m1 tr1 = (Done u2, m2, tr2)"
    and c: "close_cycle m2 tr2 = (Done u, mc, tr')"
    by (cases rule: bndE) auto
  have o1: "busy m1" "aux_buf m1 = []" "counted m1" "op_cnt m1 = op_cnt m"
    using open_cycle_Done(2,3) [OF o] by simp_all
  have d2: "cycle_on m1 m2" "\<exists>axs. aux_buf m2 = aux_buf m1 @ axs \<and> list_all2 recorded axs xs"
    using drive_ops_in_cycle [OF d o1(1)] by simp_all
  then have a2: "list_all2 recorded (aux_buf m2) xs" using o1(2) by auto
  have n2: "counted m2" "op_cnt m2 = op_cnt m"
    using d2(1) o1(3,4) by (simp_all add: cycle_on_def)
  show "list_all2 recorded (aux_buf mc) xs"
    using close_cycle_Done(1) [OF c n2(1)] a2 by simp
  show "length xs \<le> length (res_buf mc)"
    using close_cycle_Done(2) [OF c n2(1)] n2(2) n by simp
qed

lemma send_cycle_Done:
  assumes "send_cycle m arg tr = (Done rs, m', tr')"
  obtains m1 tr1 mc where "clock_event m tr = (Done (), m1, tr1)"
    and "is_sequence arg" and "a_items arg \<noteq> []"
    and "run_cycle (a_items arg) (m1\<lparr>op_cnt := int (length (a_items arg))\<rparr>) tr1 =
           (Done (), mc, tr')"
    and "rs = pick_and_mix (res_buf mc) (aux_buf mc)"
proof -
  from assms have "bnd (clock_event m tr) (\<lambda>_ m1 tr1. send_body arg m1 tr1) =
      (Done rs, m', tr')"
    by (simp add: send_cycle_def)
  then obtain u1 m1 tr1 where c: "clock_event m tr = (Done u1, m1, tr1)"
    and b: "send_body arg m1 tr1 = (Done rs, m', tr')"
    by (cases rule: bndE) auto
  have s: "is_sequence arg" and ne: "a_items arg \<noteq> []"
    using b by (auto simp: send_body_def Let_def split: if_splits)
  let ?m = "m1\<lparr>op_cnt := int (length (a_items arg))\<rparr>"
  from b s ne have "bnd (run_cycle (a_items arg) ?m tr1) (\<lambda>_ m2 tr2.
                     (let result = pick_and_mix (res_buf m2) (aux_buf m2)
                      in (Done result,
                          m2\<lparr>res_buf := result @ drop (length result) (res_buf m2)\<rparr>,
                          tr2))) = (Done rs, m', tr')"
    by (simp add: send_body_def Let_def)
  then obtain u2 mc tr2 where r: "run_cycle (a_items arg) ?m tr1 = (Done u2, mc, tr2)"
    and f: "(let result = pick_and_mix (res_buf mc) (aux_buf mc)
                      in (Done result,
                          mc\<lparr>res_buf := result @ drop (length result) (res_buf mc)\<rparr>,
                          tr2)) = (Done rs, m', tr')"
    by (cases rule: bndE) auto
  from f have "rs = pick_and_mix (res_buf mc) (aux_buf mc)" and "tr2 = tr'"
    by (simp_all add: Let_def)
  then show ?thesis using that c s ne r by simp
qed

subsection \<open>Results\<close>

lemma recorded_answers: "recorded a x \<Longrightarrow> answers (mix r a) x"
  by (cases x) (simp_all add: mix_def)

lemma pick_and_mix_nth:
  "i < length rs \<Longrightarrow> i < length axs \<Longrightarrow> pick_and_mix rs axs ! i = mix (rs ! i) (axs ! i)"
  by (simp add: pick_and_mix_def)

lemma length_pick_and_mix: "length (pick_and_mix rs axs) = min (length rs) (length axs)"
  by (simp add: pick_and_mix_def)

text \<open>
  Claim C1. For a non-empty list of \<open>N\<close> operations on which \<open>send_cycle\<close> runs to
  completion, the list returned has exactly \<open>N\<close> results, and the \<open>i\<close>-th result
  answers the \<open>i\<close>-th submitted operation: it carries that operation's address, select,
  write data and idle count. The pairing is by position in the reply and auxiliary buffers.
\<close>

theorem send_cycle_in_order:
  assumes "send_cycle m arg tr = (Done rs, m', tr')"
  shows "a_items arg \<noteq> [] \<and> length rs = length (a_items arg) \<and>
         (\<forall>i < length rs. answers (rs ! i) (a_items arg ! i))"
proof -
  from assms obtain m1 tr1 mc where ne: "a_items arg \<noteq> []"
    and r: "run_cycle (a_items arg) (m1\<lparr>op_cnt := int (length (a_items arg))\<rparr>) tr1 =
           (Done (), mc, tr')"
    and rs: "rs = pick_and_mix (res_buf mc) (aux_buf mc)"
    by (rule send_cycle_Done)
  have a: "list_all2 recorded (aux_buf mc) (a_items arg)"
    and l: "length (a_items arg) \<le> length (res_buf mc)"
    using run_cycle_Done [OF r] by simp_all
  have la: "length (aux_buf mc) = length (a_items arg)"
    using a by (rule list_all2_lengthD)
  have n: "length rs = length (a_items arg)"
    using la l by (simp add: rs length_pick_and_mix)
  have "answers (rs ! i) (a_items arg ! i)" if "i < length rs" for i
  proof -
    have i: "i < length (aux_buf mc)" "i < length (res_buf mc)" using that n la l by simp_all
    then have "rs ! i = mix (res_buf mc ! i) (aux_buf mc ! i)"
      by (simp add: rs pick_and_mix_nth)
    moreover have "recorded (aux_buf mc ! i) (a_items arg ! i)"
      using a i(1) by (rule list_all2_nthD)
    ultimately show ?thesis by (simp add: recorded_answers)
  qed
  then show ?thesis using ne n by simp
qed

theorem send_cycle_in_order_witness:
  "fst (send_cycle classic (sequence [write_op 16 170, read_op 32 1])
          [quiet, acking 0, quiet, quiet, acking 85, quiet]) =
     Done [\<lparr>res_ack = 1, res_sel = Some 15, res_adr = Some 16, res_datrd = 0,
            res_datwr = Some 170, res_waitStall = Some 0, res_waitAck = - 1,
            res_waitIdle = Some 0\<rparr>,
           \<lparr>res_ack = 1, res_sel = Some 15, res_adr = Some 32, res_datrd = 85,
            res_datwr = Some 0, res_waitStall = Some 0, res_waitAck = 0,
            res_waitIdle = Some 1\<rparr>] \<and>
   answers \<lparr>res_ack = 1, res_sel = Some 15, res_adr = Some 16, res_datrd = 0,
            res_datwr = Some 170, res_waitStall = Some 0, res_waitAck = - 1,
            res_waitIdle = Some 0\<rparr> (write_op 16 170) \<and>
   answers \<lparr>res_ack = 1, res_sel = Some 15, res_adr = Some 32, res_datrd = 85,
            res_datwr = Some 0, res_waitStall = Some 0, res_waitAck = 0,
            res_waitIdle = Some 1\<rparr> (read_op 32 1)"
proof -
  let ?run = "send_cycle classic (sequence [write_op 16 170, read_op 32 1])
          [quiet, acking 0, quiet, quiet, acking 85, quiet]"
  let ?rs = "[\<lparr>res_ack = 1, res_sel = Some 15, res_adr = Some 16, res_datrd = 0,
            res_datwr = Some 170, res_waitStall = Some 0, res_waitAck = - 1,
            res_waitIdle = Some 0\<rparr>,
           \<lparr>res_ack = 1, res_sel = Some 15, res_adr = Some 32, res_datrd = 85,
            res_datwr = Some 0, res_waitStall = Some 0, res_waitAck = 0,
            res_waitIdle = Some 1\<rparr>]"
  have f: "fst ?run = Done ?rs" by code_simp
  then have "?run = (Done ?rs, fst (snd ?run), snd (snd ?run))"
    by (metis prod.collapse)
  from send_cycle_in_order [OF this]
  have q: "\<forall>i < length ?rs. answers (?rs ! i)
      (a_items (sequence [write_op 16 170, read_op 32 1]) ! i)"
    by (elim conjE)
  have "answers (?rs ! 0) ([write_op 16 170, read_op 32 1] ! 0)"
    using q [rule_format, of 0] by (simp add: sequence_def)
  moreover have "answers (?rs ! 1) ([write_op 16 170, read_op 32 1] ! 1)"
    using q [rule_format, of 1] by (simp add: sequence_def)
  ultimately show ?thesis using f by simp
qed

text \<open>
  Claim C4. After a completed cycle the results are the reply buffer and the auxiliary
  buffer zipped by position: the \<open>i\<close>-th result has the write data, address, select, idle
  count and stall count recorded for the \<open>i\<close>-th issued operation, which are those of the
  \<open>i\<close>-th submitted operation (so a write's data and address are echoed), and its
  \<open>waitAck\<close> is the cycle counter captured with the \<open>i\<close>-th reply minus the \<open>i\<close>-th
  operation's issue timestamp.
\<close>

theorem results_zip_buffers:
  assumes "send_cycle m arg tr = (Done rs, m', tr')"
  shows "\<exists>m1 tr1 mc.
          clock_event m tr = (Done (), m1, tr1) \<and>
          run_cycle (a_items arg) (m1\<lparr>op_cnt := int (length (a_items arg))\<rparr>) tr1 =
            (Done (), mc, tr') \<and>
          rs = map (\<lambda>(res, aux). mix res aux) (zip (res_buf mc) (aux_buf mc)) \<and>
          length rs = length (aux_buf mc) \<and>
          (\<forall>i < length rs.
             res_datwr (rs ! i) = Some (aux_datwr (aux_buf mc ! i)) \<and>
             res_adr (rs ! i) = Some (aux_adr (aux_buf mc ! i)) \<and>
             res_sel (rs ! i) = Some (aux_sel (aux_buf mc ! i)) \<and>
             res_waitIdle (rs ! i) = aux_waitIdle (aux_buf mc ! i) \<and>
             res_waitStall (rs ! i) = Some (aux_waitStall (aux_buf mc ! i)) \<and>
             res_waitAck (rs ! i) =
               res_waitAck (res_buf mc ! i) - aux_ts (aux_buf mc ! i) \<and>
             res_ack (rs ! i) = res_ack (res_buf mc ! i) \<and>
             res_datrd (rs ! i) = res_datrd (res_buf mc ! i) \<and>
             recorded (aux_buf mc ! i) (a_items arg ! i) \<and>
             (\<forall>op d. a_items arg ! i = Op op \<and> op_dat op = Some d \<longrightarrow>
                res_datwr (rs ! i) = Some d \<and> res_adr (rs ! i) = Some (op_adr op)))"
proof -
  from assms obtain m1 tr1 mc where c: "clock_event m tr = (Done (), m1, tr1)"
    and r: "run_cycle (a_items arg) (m1\<lparr>op_cnt := int (length (a_items arg))\<rparr>) tr1 =
           (Done (), mc, tr')"
    and rs: "rs = pick_and_mix (res_buf mc) (aux_buf mc)"
    by (rule send_cycle_Done)
  have a: "list_all2 recorded (aux_buf mc) (a_items arg)"
    and l: "length (a_items arg) \<le> length (res_buf mc)"
    using run_cycle_Done [OF r] by simp_all
  have la: "length (aux_buf mc) = length (a_items arg)"
    using a by (rule list_all2_lengthD)
  have n: "length rs = length (aux_buf mc)"
    using la l by (simp add: rs length_pick_and_mix)
  have each: "res_datwr (rs ! i) = Some (aux_datwr (aux_buf mc ! i)) \<and>
             res_adr (rs ! i) = Some (aux_adr (aux_buf mc ! i)) \<and>
             res_sel (rs ! i) = Some (aux_sel (aux_buf mc ! i)) \<and>
             res_waitIdle (rs ! i) = aux_waitIdle (aux_buf mc ! i) \<and>
             res_waitStall (rs ! i) = Some (aux_waitStall (aux_buf mc ! i)) \<and>
             res_waitAck (rs ! i) =
               res_waitAck (res_buf mc ! i) - aux_ts (aux_buf mc ! i) \<and>
             res_ack (rs ! i) = res_ack (res_buf mc ! i) \<and>
             res_datrd (rs ! i) = res_datrd (res_buf mc ! i) \<and>
             recorded (aux_buf mc ! i) (a_items arg ! i) \<and>
             (\<forall>op d. a_items arg ! i = Op op \<and> op_dat op = Some d \<longrightarrow>
                res_datwr (rs ! i) = Some d \<and> res_adr (rs ! i) = Some (op_adr op))"
    if "i < length rs" for i
  proof -
    have i: "i < length (aux_buf mc)" "i < length (res_buf mc)" using that n la l by simp_all
    then have m: "rs ! i = mix (res_buf mc ! i) (aux_buf mc ! i)"
      by (simp add: rs pick_and_mix_nth)
    have rec: "recorded (aux_buf mc ! i) (a_items arg ! i)"
      using a i(1) by (rule list_all2_nthD)
    have echo: "res_datwr (rs ! i) = Some d \<and> res_adr (rs ! i) = Some (op_adr op)"
      if "a_items arg ! i = Op op \<and> op_dat op = Some d" for op d
      using rec that by (auto simp: m mix_def)
    have e: "\<forall>op d. a_items arg ! i = Op op \<and> op_dat op = Some d \<longrightarrow>
                res_datwr (rs ! i) = Some d \<and> res_adr (rs ! i) = Some (op_adr op)"
      using echo by blast
    have f: "res_datwr (rs ! i) = Some (aux_datwr (aux_buf mc ! i)) \<and>
             res_adr (rs ! i) = Some (aux_adr (aux_buf mc ! i)) \<and>
             res_sel (rs ! i) = Some (aux_sel (aux_buf mc ! i)) \<and>
             res_waitIdle (rs ! i) = aux_waitIdle (aux_buf mc ! i) \<and>
             res_waitStall (rs ! i) = Some (aux_waitStall (aux_buf mc ! i)) \<and>
             res_waitAck (rs ! i) =
               res_waitAck (res_buf mc ! i) - aux_ts (aux_buf mc ! i) \<and>
             res_ack (rs ! i) = res_ack (res_buf mc ! i) \<and>
             res_datrd (rs ! i) = res_datrd (res_buf mc ! i)"
      by (simp add: m mix_def)
    show ?thesis using f rec e by blast
  qed
  show ?thesis
    using c r n each unfolding rs pick_and_mix_def by blast
qed

theorem results_zip_buffers_witness:
  "fst (send_cycle (pipelined 5) (sequence [write_op 16 170, read_op 32 0])
          [quiet, quiet, acking 0, acking 85, quiet]) =
     Done [\<lparr>res_ack = 1, res_sel = Some 15, res_adr = Some 16, res_datrd = 0,
            res_datwr = Some 170, res_waitStall = Some 0, res_waitAck = 0,
            res_waitIdle = Some 0\<rparr>,
           \<lparr>res_ack = 1, res_sel = Some 15, res_adr = Some 32, res_datrd = 85,
            res_datwr = Some 0, res_waitStall = Some 0, res_waitAck = 0,
            res_waitIdle = Some 0\<rparr>] \<and>
   (\<exists>mc :: wb. length (aux_buf mc) = 2 \<and>
      map (\<lambda>(res, aux). mix res aux) (zip (res_buf mc) (aux_buf mc)) =
        [\<lparr>res_ack = 1, res_sel = Some 15, res_adr = Some 16, res_datrd = 0,
            res_datwr = Some 170, res_waitStall = Some 0, res_waitAck = 0,
            res_waitIdle = Some 0\<rparr>,
           \<lparr>res_ack = 1, res_sel = Some 15, res_adr = Some 32, res_datrd = 85,
            res_datwr = Some 0, res_waitStall = Some 0, res_waitAck = 0,
            res_waitIdle = Some 0\<rparr>])"
proof -
  let ?run = "send_cycle (pipelined 5) (sequence [write_op 16 170, read_op 32 0])
          [quiet, quiet, acking 0, acking 85, quiet]"
  let ?rs = "[\<lparr>res_ack = 1, res_sel = Some 15, res_adr = Some 16, res_datrd = 0,
            res_datwr = Some 170, res_waitStall = Some 0, res_waitAck = 0,
            res_waitIdle = Some 0\<rparr>,
           \<lparr>res_ack = 1, res_sel = Some 15, res_adr = Some 32, res_datrd = 85,
            res_datwr = Some 0, res_waitStall = Some 0, res_waitAck = 0,
            res_waitIdle = Some 0\<rparr>]"
  have f: "fst ?run = Done ?rs" by code_simp
  then have "?run = (Done ?rs, fst (snd ?run), snd (snd ?run))"
    by (metis prod.collapse)
  from results_zip_buffers [OF this] have "\<exists>mc :: wb.
      ?rs = map (\<lambda>(res, aux). mix res aux) (zip (res_buf mc) (aux_buf mc)) \<and>
      length ?rs = length (aux_buf mc)"
  proof (elim exE conjE)
    fix m1 tr1 and mc :: wb
    assume a: "?rs = map (\<lambda>(res, aux). mix res aux) (zip (res_buf mc) (aux_buf mc))"
      and b: "length ?rs = length (aux_buf mc)"
    from a b have "?rs = map (\<lambda>(res, aux). mix res aux) (zip (res_buf mc) (aux_buf mc)) \<and>
      length ?rs = length (aux_buf mc)"
      by (rule conjI)
    then show ?thesis by (rule exI)
  qed
  then obtain mc :: wb where
    z: "?rs = map (\<lambda>(res, aux). mix res aux) (zip (res_buf mc) (aux_buf mc))"
    and n: "length ?rs = length (aux_buf mc)"
    by (elim exE conjE)
  have "length (aux_buf mc) = 2 \<and>
      map (\<lambda>(res, aux). mix res aux) (zip (res_buf mc) (aux_buf mc)) = ?rs"
    using z [symmetric] n by simp
  then have "\<exists>mc :: wb. length (aux_buf mc) = 2 \<and>
      map (\<lambda>(res, aux). mix res aux) (zip (res_buf mc) (aux_buf mc)) = ?rs"
    by (rule exI)
  then show ?thesis using f by simp
qed

subsection \<open>Usage faults\<close>



















end
